theory Spec2Isabelle
  imports Complex_Main "HOL-Library.Word"
begin

unbundle bit_operations_syntax

section \<open>JavaScript numbers\<close>

text \<open>
  A number is a finite value, an infinity or NaN; a finite value is modelled by the
  rational it denotes. The sign of zero is not modelled: both zeros are the value 0,
  and a divisor 0 stands for the positive zero, which is what \<open>Number('')\<close> yields for
  an emptied input field. \<open>Math.min\<close>, \<open>Math.max\<close> and the comparisons \<open><\<close> and
  \<open><=\<close> are exact.
\<close>

datatype number = Fin rat | PosInf | NegInf | NaN

fun Math_min :: "number \<Rightarrow> number \<Rightarrow> number" where
  "Math_min NaN y = NaN"
| "Math_min x NaN = NaN"
| "Math_min NegInf y = NegInf"
| "Math_min x NegInf = NegInf"
| "Math_min PosInf y = y"
| "Math_min x PosInf = x"
| "Math_min (Fin a) (Fin b) = Fin (min a b)"

fun Math_max :: "number \<Rightarrow> number \<Rightarrow> number" where
  "Math_max NaN y = NaN"
| "Math_max x NaN = NaN"
| "Math_max PosInf y = PosInf"
| "Math_max x PosInf = PosInf"
| "Math_max NegInf y = y"
| "Math_max x NegInf = x"
| "Math_max (Fin a) (Fin b) = Fin (max a b)"

fun jsLess :: "number \<Rightarrow> number \<Rightarrow> bool" where
  "jsLess NaN y = False"
| "jsLess x NaN = False"
| "jsLess PosInf y = False"
| "jsLess x NegInf = False"
| "jsLess NegInf y = True"
| "jsLess x PosInf = True"
| "jsLess (Fin a) (Fin b) = (a < b)"

fun jsLessEq :: "number \<Rightarrow> number \<Rightarrow> bool" where
  "jsLessEq NaN y = False"
| "jsLessEq x NaN = False"
| "jsLessEq NegInf y = True"
| "jsLessEq x PosInf = True"
| "jsLessEq PosInf y = False"
| "jsLessEq x NegInf = False"
| "jsLessEq (Fin a) (Fin b) = (a \<le> b)"

text \<open>Floors and ceilings of rational literals, for evaluation by the simplifier.\<close>

lemma floor_rat_numeral: "\<lfloor>numeral a / numeral b :: rat\<rfloor> = numeral a div numeral b"
  by (metis floor_divide_of_int_eq of_int_numeral)

lemma floor_rat_neg_numeral: "\<lfloor>- (numeral a / numeral b) :: rat\<rfloor> = - numeral a div numeral b"
  by (metis floor_divide_of_int_eq of_int_numeral of_int_minus minus_divide_left)

lemma ceiling_rat_numeral: "\<lceil>numeral a / numeral b :: rat\<rceil> = - (- numeral a div numeral b)"
  unfolding ceiling_def by (simp add: floor_rat_neg_numeral)

lemma ceiling_rat_neg_numeral: "\<lceil>- (numeral a / numeral b) :: rat\<rceil> = - (numeral a div numeral b)"
  unfolding ceiling_def by (simp add: floor_rat_numeral)

lemmas rat_eval = floor_rat_numeral floor_rat_neg_numeral ceiling_rat_numeral ceiling_rat_neg_numeral

subsection \<open>Double precision\<close>

text \<open>
  Sizes, durations and chunk boundaries are computed in double precision: every
  arithmetic operation of the source (\<open>/\<close>, \<open>*\<close>, \<open>+\<close>) is the exact operation
  followed by a rounding to the nearest value with a 53-bit significand, ties to the
  even significand, as IEEE 754 prescribes. \<open>fl\<close> is that rounding with an unbounded
  exponent range; \<open>roundDouble\<close> below adds the overflow to an infinity. The subnormal
  numbers are not modelled. \<open>Math.floor\<close> and \<open>Math.ceil\<close> are exact.

  \<open>ilog2 n\<close> is the position of the leading bit of \<open>n\<close>, \<open>binade x\<close> the exponent
  \<open>e\<close> with \<open>2^e \<le> x < 2^(e+1)\<close> of a positive \<open>x\<close>.
\<close>

fun ilog2 :: "nat \<Rightarrow> nat" where
  "ilog2 n = (if n < 2 then 0 else Suc (ilog2 (n div 2)))"
declare ilog2.simps [simp del]

definition pow2 :: "int \<Rightarrow> rat" where
  "pow2 e = (if 0 \<le> e then 2 ^ nat e else 1 / 2 ^ nat (- e))"

definition binade :: "rat \<Rightarrow> int" where
  "binade x = (if 1 \<le> x then int (ilog2 (nat \<lfloor>x\<rfloor>))
               else - int (ilog2 (nat (\<lceil>1 / x\<rceil> - 1)) + 1))"

definition roundTiesToEven :: "rat \<Rightarrow> int" where
  "roundTiesToEven x =
     (let f = \<lfloor>x\<rfloor>; r = x - of_int f
      in if r < 1 / 2 then f else if 1 / 2 < r then f + 1 else if even f then f else f + 1)"

definition fl :: "rat \<Rightarrow> rat" where
  "fl x = (if x = 0 then 0
           else let q = pow2 (binade \<bar>x\<bar> - 52) in of_int (roundTiesToEven (x / q)) * q)"

text \<open>Evaluation of \<open>fl\<close> on literals by the simplifier.\<close>

lemma ilog2_eval:
  "ilog2 (numeral k) = (if numeral k < (2::nat) then 0 else Suc (ilog2 (numeral k div 2)))"
  "ilog2 0 = 0"
  "ilog2 1 = 0"
  "ilog2 (Suc 0) = 0"
  by (simp_all add: ilog2.simps [of "numeral k"] ilog2.simps [of 0] ilog2.simps [of "Suc 0"])

lemmas fl_eval = fl_def binade_def pow2_def roundTiesToEven_def ilog2_eval Let_def rat_eval

text \<open>
  The exponent is the right one, and the significand is rounded to a nearest integer:
  \<open>fl\<close> is rounding to nearest at a precision of 53 bits.
\<close>

lemma ilog2_bounds: "0 < n \<Longrightarrow> 2 ^ ilog2 n \<le> n \<and> n < 2 ^ Suc (ilog2 n)"
proof (induction n rule: ilog2.induct)
  case (1 n)
  show ?case
  proof (cases "n < 2")
    case True
    with "1.prems" have "n = 1" by simp
    then show ?thesis by (simp add: ilog2_eval)
  next
    case False
    then have "0 < n div 2" by simp
    with "1.IH" [OF False] have ih: "2 ^ ilog2 (n div 2) \<le> n div 2" "n div 2 < 2 ^ Suc (ilog2 (n div 2))"
      by simp_all
    have e: "ilog2 n = Suc (ilog2 (n div 2))" using False by (simp add: ilog2.simps [of n])
    from ih(1) have "2 * 2 ^ ilog2 (n div 2) \<le> 2 * (n div 2)" by simp
    also have "\<dots> \<le> n" by simp
    finally have lo: "2 ^ ilog2 n \<le> n" by (simp add: e)
    from ih(2) have "Suc (n div 2) \<le> 2 ^ Suc (ilog2 (n div 2))" by simp
    then have "2 * Suc (n div 2) \<le> 2 * 2 ^ Suc (ilog2 (n div 2))" by (rule mult_le_mono2)
    moreover have "n < 2 * Suc (n div 2)" by simp
    ultimately have "n < 2 ^ Suc (ilog2 n)" by (simp add: e)
    with lo show ?thesis by simp
  qed
qed

lemma binade_bounds:
  assumes "0 < x"
  shows "pow2 (binade x) \<le> x \<and> x < pow2 (binade x + 1)"
proof (cases "1 \<le> x")
  case True
  define n where "n = nat \<lfloor>x\<rfloor>"
  have n: "0 < n" "of_nat n \<le> x" "x < of_nat n + 1"
    using True by (simp_all add: n_def) linarith+
  have b: "binade x = int (ilog2 n)" using True by (simp add: binade_def n_def)
  from ilog2_bounds [OF n(1)] have lo: "2 ^ ilog2 n \<le> n" and hi: "Suc n \<le> 2 ^ Suc (ilog2 n)"
    by simp_all
  have l: "(2 :: rat) ^ ilog2 n \<le> x"
  proof -
    have "(2 :: rat) ^ ilog2 n = of_nat (2 ^ ilog2 n)" by simp
    also have "\<dots> \<le> of_nat n" using lo by (rule of_nat_mono)
    also have "\<dots> \<le> x" by (rule n(2))
    finally show ?thesis .
  qed
  have h: "x < (2 :: rat) ^ Suc (ilog2 n)"
  proof -
    have "x < of_nat (Suc n)" using n(3) by simp
    also have "\<dots> \<le> of_nat (2 ^ Suc (ilog2 n))" using hi by (rule of_nat_mono)
    also have "\<dots> = (2 :: rat) ^ Suc (ilog2 n)" by simp
    finally show ?thesis .
  qed
  have "nat (int (ilog2 n) + 1) = Suc (ilog2 n)" by simp
  with l h show ?thesis by (simp add: b pow2_def)
next
  case False
  define y where "y = 1 / x"
  have y: "1 < y" using False assms by (simp add: y_def)
  define m where "m = nat (\<lceil>y\<rceil> - 1)"
  have c: "y \<le> of_int \<lceil>y\<rceil>" "of_int \<lceil>y\<rceil> - 1 < y" by linarith+
  have "2 \<le> \<lceil>y\<rceil>" using y by linarith
  then have m: "0 < m" "int m = \<lceil>y\<rceil> - 1" by (simp_all add: m_def)
  have ym: "of_nat m < y" "y \<le> of_nat m + 1"
  proof -
    have "(of_nat m :: rat) = of_int (int m)" by simp
    also have "\<dots> = of_int \<lceil>y\<rceil> - 1" by (simp add: m(2))
    finally have e: "(of_nat m :: rat) = of_int \<lceil>y\<rceil> - 1" .
    show "of_nat m < y" using c(2) by (simp add: e)
    show "y \<le> of_nat m + 1" using c(1) by (simp add: e)
  qed
  have b: "binade x = - int (Suc (ilog2 m))"
    using False by (simp add: binade_def m_def y_def)
  from ilog2_bounds [OF m(1)] have lo: "2 ^ ilog2 m \<le> m" and hi: "Suc m \<le> 2 ^ Suc (ilog2 m)"
    by simp_all
  have l: "(2 :: rat) ^ ilog2 m < y"
  proof -
    have "(2 :: rat) ^ ilog2 m = of_nat (2 ^ ilog2 m)" by simp
    also have "\<dots> \<le> of_nat m" using lo by (rule of_nat_mono)
    also have "\<dots> < y" by (rule ym(1))
    finally show ?thesis .
  qed
  have h: "y \<le> (2 :: rat) ^ Suc (ilog2 m)"
  proof -
    have "y \<le> of_nat (Suc m)" using ym(2) by simp
    also have "\<dots> \<le> of_nat (2 ^ Suc (ilog2 m))" using hi by (rule of_nat_mono)
    also have "\<dots> = (2 :: rat) ^ Suc (ilog2 m)" by simp
    finally show ?thesis .
  qed
  have x: "x = 1 / y" using assms by (simp add: y_def)
  have "nat (int (ilog2 m) + 1) = Suc (ilog2 m)" by simp
  then have p1: "pow2 (binade x) = 1 / 2 ^ Suc (ilog2 m)"
    by (simp add: b pow2_def)
  have "binade x + 1 = - int (ilog2 m)" by (simp add: b)
  then have p2: "pow2 (binade x + 1) = 1 / 2 ^ ilog2 m"
    by (cases "ilog2 m = 0") (simp_all add: pow2_def)
  have a1: "1 / 2 ^ Suc (ilog2 m) \<le> x"
    unfolding x using h y by (intro divide_left_mono) simp_all
  have a2: "x < 1 / 2 ^ ilog2 m"
    unfolding x using l y by (intro divide_strict_left_mono) simp_all
  show ?thesis unfolding p1 p2 using a1 a2 by (rule conjI)
qed

lemma roundTiesToEven_nearest: "\<bar>of_int (roundTiesToEven x) - x\<bar> \<le> 1 / 2"
proof -
  have "of_int \<lfloor>x\<rfloor> \<le> x" "x < of_int \<lfloor>x\<rfloor> + 1" by linarith+
  then show ?thesis
    by (auto simp: roundTiesToEven_def Let_def abs_le_iff)
qed

text \<open>Integers below \<open>2^53\<close> are doubles: \<open>fl\<close> leaves them as they are.\<close>

lemma ilog2_le: "n < 2 ^ Suc m \<Longrightarrow> ilog2 n \<le> m"
proof (induction m arbitrary: n)
  case 0
  then show ?case by (simp add: ilog2.simps [of n])
next
  case (Suc m)
  show ?case
  proof (cases "n < 2")
    case True
    then show ?thesis by (simp add: ilog2.simps [of n])
  next
    case False
    from Suc.prems have "n div 2 < 2 ^ Suc m" by simp
    then have "ilog2 (n div 2) \<le> m" by (rule Suc.IH)
    with False show ?thesis by (simp add: ilog2.simps [of n])
  qed
qed

lemma roundTiesToEven_of_int: "roundTiesToEven (of_int m) = m"
  by (simp add: roundTiesToEven_def)

lemma fl_of_nat:
  assumes "k < 2 ^ 53"
  shows "fl (of_nat k) = of_nat k"
proof (cases "k = 0")
  case True
  then show ?thesis by (simp add: fl_def)
next
  case False
  define e where "e = ilog2 k"
  have e: "e \<le> 52" unfolding e_def using assms by (intro ilog2_le) simp
  have b: "binade (rat_of_nat k) = int e"
    using False by (simp add: binade_def e_def)
  have q: "pow2 (int e - 52) = 1 / 2 ^ (52 - e)"
  proof (cases "e = 52")
    case True
    then show ?thesis by (simp add: pow2_def)
  next
    case False
    with e have "e < 52" by simp
    then have "nat (52 - int e) = 52 - e" by simp
    with \<open>e < 52\<close> show ?thesis by (simp add: pow2_def)
  qed
  have "of_nat k / (1 / 2 ^ (52 - e)) = (of_int (int (k * 2 ^ (52 - e))) :: rat)"
    by simp
  then have r: "roundTiesToEven (of_nat k / (1 / 2 ^ (52 - e))) = int (k * 2 ^ (52 - e))"
    by (simp only: roundTiesToEven_of_int)
  have "fl (of_nat k)
          = of_int (roundTiesToEven (of_nat k / pow2 (binade (of_nat k) - 52)))
            * pow2 (binade (of_nat k) - 52)"
    using False by (simp add: fl_def Let_def)
  also have "\<dots> = of_int (int (k * 2 ^ (52 - e))) * (1 / 2 ^ (52 - e))"
    unfolding b q r ..
  also have "\<dots> = of_nat k" by simp
  finally show ?thesis .
qed

text \<open>
  A result whose rounded magnitude reaches \<open>2^1024\<close> is an infinity. The sum of two
  numbers and the quotient of two finite numbers follow; a finite dividend over zero is
  an infinity of its sign, and zero over zero is NaN. \<open>Math.ceil\<close> keeps the infinities
  and NaN.
\<close>

definition roundDouble :: "rat \<Rightarrow> number" where
  "roundDouble x =
     (let q = fl x
      in if 2 ^ 1024 \<le> q then PosInf else if q \<le> - (2 ^ 1024) then NegInf else Fin q)"

fun jsAdd :: "number \<Rightarrow> number \<Rightarrow> number" where
  "jsAdd NaN y = NaN"
| "jsAdd x NaN = NaN"
| "jsAdd PosInf NegInf = NaN"
| "jsAdd NegInf PosInf = NaN"
| "jsAdd PosInf y = PosInf"
| "jsAdd x PosInf = PosInf"
| "jsAdd NegInf y = NegInf"
| "jsAdd x NegInf = NegInf"
| "jsAdd (Fin a) (Fin b) = roundDouble (a + b)"

definition jsDivide :: "rat \<Rightarrow> rat \<Rightarrow> number" where
  "jsDivide x y =
     (if y = 0 then (if x = 0 then NaN else if 0 < x then PosInf else NegInf)
      else roundDouble (x / y))"

fun Math_ceil :: "number \<Rightarrow> number" where
  "Math_ceil (Fin x) = Fin (of_int \<lceil>x\<rceil>)"
| "Math_ceil v = v"

text \<open>
  A loop counter is a number too: \<open>i + 1\<close> and \<open>i++\<close> round, so a counter that has
  reached \<open>2^53\<close> stays there.
\<close>

definition increment :: "nat \<Rightarrow> nat" where
  "increment i = nat \<lfloor>fl (of_nat i + 1)\<rfloor>"

lemma roundDouble_of_nat:
  assumes "k < 2 ^ 53"
  shows "roundDouble (of_nat k) = Fin (of_nat k)"
proof -
  have "(of_nat k :: rat) < of_nat (2 ^ 53)"
    using assms by (simp only: of_nat_less_iff)
  then have "(of_nat k :: rat) < 2 ^ 1024" by simp
  moreover have "- (2 ^ 1024) < (of_nat k :: rat)"
    by (rule less_le_trans [of _ 0]) simp_all
  ultimately show ?thesis
    by (simp add: roundDouble_def fl_of_nat [OF assms] Let_def)
qed

lemma increment_eq:
  assumes "i < 2 ^ 53"
  shows "increment i = Suc i"
proof (cases "Suc i < 2 ^ 53")
  case True
  have "fl (of_nat i + 1) = fl (of_nat (Suc i))" by (simp add: add.commute)
  also have "\<dots> = of_nat (Suc i)" using True by (rule fl_of_nat)
  finally show ?thesis by (simp only: increment_def floor_of_nat nat_int)
next
  case False
  with assms have i: "i = 2 ^ 53 - 1" by simp
  have "fl (9007199254740992 :: rat) = 9007199254740992"
    by (simp add: fl_eval)
  then show ?thesis
    by (simp add: increment_def i)
qed

lemma increment_saturates: "increment (2 ^ 53) = 2 ^ 53"
  by (simp add: increment_def fl_eval)

text \<open>
  Rounding never takes a value from \<open>2^53\<close> or above to one below: the minimum of
  such a sum and a smaller integer is that integer, also when the sum overflows.
\<close>

lemma pow2_powi: "pow2 e = 2 powi e"
  by (simp add: pow2_def power_int_def field_simps)

lemma roundTiesToEven_lower:
  assumes "of_int k \<le> x"
  shows "k \<le> roundTiesToEven x"
proof -
  have "of_int k - 1 / 2 \<le> (of_int (roundTiesToEven x) :: rat)"
    using roundTiesToEven_nearest [of x] assms by linarith
  then have "(of_int k :: rat) < of_int (roundTiesToEven x) + 1" by simp
  then have "(of_int k :: rat) < of_int (roundTiesToEven x + 1)" by simp
  then have "k < roundTiesToEven x + 1" by (simp only: of_int_less_iff)
  then show ?thesis by simp
qed

lemma fl_lower:
  assumes "2 ^ 53 \<le> x"
  shows "2 ^ 53 \<le> fl x"
proof -
  have pos: "0 < x" by (rule less_le_trans [OF _ assms]) simp
  define e where "e = binade x"
  have b: "2 powi e \<le> x" "x < 2 powi (e + 1)"
    using binade_bounds [OF pos] by (simp_all add: e_def pow2_powi)
  have e53: "53 \<le> e"
  proof (rule ccontr)
    assume "\<not> 53 \<le> e"
    then have "e + 1 \<le> 53" by simp
    then have "(2::rat) powi (e + 1) \<le> 2 powi 53"
      by (intro power_int_increasing) simp_all
    with b(2) assms show False by simp
  qed
  define q :: rat where "q = 2 powi (e - 52)"
  have q: "0 < q" by (simp add: q_def)
  have split: "(2::rat) powi e = 2 ^ 52 * q"
    using power_int_add [of "2::rat" 52 "e - 52"] by (simp add: q_def)
  have "(2::rat) ^ 52 \<le> x / q"
    using b(1) q by (simp add: split pos_le_divide_eq)
  then have "(of_int (2 ^ 52) :: rat) \<le> x / q" by simp
  then have "2 ^ 52 \<le> roundTiesToEven (x / q)" by (rule roundTiesToEven_lower)
  then have "(of_int (2 ^ 52) :: rat) \<le> of_int (roundTiesToEven (x / q))"
    by (simp only: of_int_le_iff)
  then have r: "2 ^ 52 * q \<le> of_int (roundTiesToEven (x / q)) * q"
    using q by simp
  have f: "fl x = of_int (roundTiesToEven (x / q)) * q"
    using pos by (simp add: fl_def Let_def q_def e_def pow2_powi)
  have "(2::rat) ^ 53 = 2 powi 53" by simp
  also have "\<dots> \<le> 2 powi e"
    using e53 by (intro power_int_increasing) simp_all
  also have "\<dots> = 2 ^ 52 * q" by (rule split)
  also have "\<dots> \<le> of_int (roundTiesToEven (x / q)) * q" by (rule r)
  also have "\<dots> = fl x" by (rule f [symmetric])
  finally show ?thesis .
qed

lemma roundDouble_large:
  assumes "2 ^ 53 \<le> x" "k < 2 ^ 53"
  shows "Math_min (roundDouble x) (Fin (of_nat k)) = Fin (of_nat k)"
proof -
  have k: "(of_nat k :: rat) < 2 ^ 53"
    using assms(2) by (metis of_nat_less_iff of_nat_numeral of_nat_power)
  have "2 ^ 53 \<le> fl x" using assms(1) by (rule fl_lower)
  with k have "of_nat k \<le> fl x" "\<not> fl x \<le> - (2 ^ 1024)" by simp_all
  then show ?thesis
    by (simp add: roundDouble_def Let_def min_def)
qed

section \<open>Blobs and files\<close>

text \<open>
  A \<open>Blob\<close> is a sequence of bytes with a MIME type; a \<open>File\<close> is a blob that also
  has a name. Both are values of one datatype, since \<open>splitAudioFile\<close> returns the file
  itself in one branch and slices of it in the other.
\<close>

type_synonym byte = "8 word"

datatype blob =
    Blob (blobBytes: "byte list") (blobType: string)
  | File (blobBytes: "byte list") (blobType: string) (fileName: string)

text \<open>\<open>blob.size\<close>.\<close>

definition blobSize :: "blob \<Rightarrow> nat" where
  "blobSize b = length (blobBytes b)"

text \<open>
  \<open>blob.slice(start, end, contentType)\<close>. The two positions are declared
  \<open>[Clamp] long long\<close>: a number is rounded to the nearest integer, ties to the even
  one, and clamped to the range from \<open>-(2^53 - 1)\<close> to \<open>2^53 - 1\<close> that Web IDL
  gives the 64-bit types; NaN becomes 0. A negative position counts from
  the end of the blob, every position is clamped to the size, and the span is empty when
  the end does not exceed the start. The content type handed over is the type of the
  file, which is in lower case already.
\<close>

fun clampLongLong :: "number \<Rightarrow> int" where
  "clampLongLong (Fin x) = max (- (2 ^ 53 - 1)) (min (2 ^ 53 - 1) (roundTiesToEven x))"
| "clampLongLong PosInf = 2 ^ 53 - 1"
| "clampLongLong NegInf = - (2 ^ 53 - 1)"
| "clampLongLong NaN = 0"

definition slice :: "blob \<Rightarrow> number \<Rightarrow> number \<Rightarrow> string \<Rightarrow> blob" where
  "slice b start endPos contentType =
     (let size = int (blobSize b);
          s = clampLongLong start;
          e = clampLongLong endPos;
          relativeStart = (if s < 0 then max (size + s) 0 else min s size);
          relativeEnd = (if e < 0 then max (size + e) 0 else min e size);
          span = max (relativeEnd - relativeStart) 0
      in Blob (take (nat span) (drop (nat relativeStart) (blobBytes b))) contentType)"

section \<open>Byte-range splitting: \<open>splitAudioFile\<close>\<close>

text \<open>
  The \<open>while (start < file.size)\<close> loop of \<open>splitAudioFile\<close>. Nothing in the source
  bounds its number of iterations (a chunk size of 0 never advances \<open>start\<close>), so the
  loop is a partial function: \<open>None\<close> stands for a run that does not return. The chunk
  size is whatever number the caller passes: the source checks neither its sign nor that
  it is an integer, and \<open>start\<close> takes the values \<open>start + chunkSizeInBytes\<close>,
  fractional when the chunk size is.
\<close>

partial_function (option) splitLoop ::
  "blob \<Rightarrow> number \<Rightarrow> blob list \<Rightarrow> number \<Rightarrow> blob list option" where
  "splitLoop file chunkSizeInBytes chunks start =
     (if jsLess start (Fin (of_nat (blobSize file)))
      then (let endPos = Math_min (jsAdd start chunkSizeInBytes) (Fin (of_nat (blobSize file)));
                chunk = slice file start endPos (blobType file)
            in splitLoop file chunkSizeInBytes (chunks @ [chunk]) endPos)
      else Some chunks)"

definition splitAudioFile :: "blob \<Rightarrow> number \<Rightarrow> blob list option" where
  "splitAudioFile file chunkSizeInBytes =
     (if jsLessEq (Fin (of_nat (blobSize file))) chunkSizeInBytes then Some [file]
      else splitLoop file chunkSizeInBytes [] (Fin 0))"

text \<open>
  One turn of the loop at integer values. The size of a file is an integer below
  \<open>2^53\<close>, the integers that a number holds exactly. With a position inside the file
  and a chunk size that are natural numbers, the sum is exact or is not below \<open>2^53\<close>,
  so the end is the exact minimum, and the slice is the next \<open>c\<close> bytes, or what is
  left of the file.
\<close>

lemma clampLongLong_of_nat:
  assumes "k < 2 ^ 53"
  shows "clampLongLong (Fin (of_nat k)) = int k"
proof -
  have r: "roundTiesToEven (of_nat k) = int k"
    using roundTiesToEven_of_int [of "int k"] by simp
  have "int k < 2 ^ 53" using assms by simp
  then have "int k \<le> 2 ^ 53 - 1" by simp
  moreover have "- (2 ^ 53 - 1) \<le> int k"
    by (rule order_trans [of _ 0]) simp_all
  ultimately have "max (- (2 ^ 53 - 1)) (min (2 ^ 53 - 1) (int k)) = int k"
    by (simp only: min_absorb2 max_absorb2)
  then show ?thesis by (simp only: clampLongLong.simps r)
qed

lemma slice_of_nat:
  assumes "e < 2 ^ 53" "s \<le> e" "e \<le> blobSize b"
  shows "slice b (Fin (of_nat s)) (Fin (of_nat e)) ty = Blob (take (e - s) (drop s (blobBytes b))) ty"
proof -
  have "s < 2 ^ 53" using assms(1,2) by simp
  then have "clampLongLong (Fin (of_nat s)) = int s" by (rule clampLongLong_of_nat)
  moreover have "clampLongLong (Fin (of_nat e)) = int e"
    using assms(1) by (rule clampLongLong_of_nat)
  moreover have "nat (int e - int s) = e - s" by simp
  ultimately show ?thesis
    using assms(2,3) by (simp add: slice_def Let_def min_def max_def)
qed

lemma splitLoop_step:
  assumes "s < blobSize f" "blobSize f < 2 ^ 53"
  shows "splitLoop f (Fin (of_nat c)) acc (Fin (of_nat s))
           = splitLoop f (Fin (of_nat c))
               (acc @ [Blob (take (min (s + c) (blobSize f) - s) (drop s (blobBytes f))) (blobType f)])
               (Fin (of_nat (min (s + c) (blobSize f))))"
proof -
  have sum: "jsAdd (Fin (of_nat s)) (Fin (of_nat c)) = roundDouble (of_nat (s + c))"
    by simp
  have "Math_min (roundDouble (of_nat (s + c))) (Fin (of_nat (blobSize f)))
          = Fin (of_nat (min (s + c) (blobSize f)))"
  proof (cases "s + c < 2 ^ 53")
    case True
    then have "roundDouble (of_nat (s + c)) = Fin (of_nat (s + c))"
      by (rule roundDouble_of_nat)
    then show ?thesis by (simp add: min_def)
  next
    case False
    then have "(of_nat (2 ^ 53) :: rat) \<le> of_nat (s + c)"
      by (simp only: of_nat_le_iff)
    then have "2 ^ 53 \<le> (of_nat (s + c) :: rat)" by simp
    then have "Math_min (roundDouble (of_nat (s + c))) (Fin (of_nat (blobSize f)))
                 = Fin (of_nat (blobSize f))"
      using assms(2) by (rule roundDouble_large)
    moreover have "min (s + c) (blobSize f) = blobSize f"
      using False assms(2) by simp
    ultimately show ?thesis by (simp only:)
  qed
  then have "Math_min (jsAdd (Fin (of_nat s)) (Fin (of_nat c))) (Fin (of_nat (blobSize f)))
                  = Fin (of_nat (min (s + c) (blobSize f)))"
    by (simp only: sum)
  moreover have "slice f (Fin (of_nat s)) (Fin (of_nat (min (s + c) (blobSize f)))) (blobType f)
                   = Blob (take (min (s + c) (blobSize f) - s) (drop s (blobBytes f))) (blobType f)"
    using assms by (intro slice_of_nat) simp_all
  ultimately show ?thesis
    using assms(1) by (subst splitLoop.simps) (simp add: Let_def)
qed

text \<open>
  The loop invariant: started at an integer position inside the file with a positive
  integer chunk size, the loop returns, and what it appends to the accumulator are
  slices that concatenate to the rest of the file, all of the chunk size except possibly
  the last, none empty.
\<close>

lemma splitLoop_spec:
  assumes "0 < c" "start \<le> blobSize f" "blobSize f < 2 ^ 53"
  shows "\<exists>rest. splitLoop f (Fin (of_nat c)) acc (Fin (of_nat start)) = Some (acc @ rest)
           \<and> concat (map blobBytes rest) = drop start (blobBytes f)
           \<and> (\<forall>k. Suc k < length rest \<longrightarrow> length (blobBytes (rest ! k)) = c)
           \<and> (\<forall>k < length rest. 0 < length (blobBytes (rest ! k)) \<and> length (blobBytes (rest ! k)) \<le> c)
           \<and> (\<forall>k < length rest. blobType (rest ! k) = blobType f)
           \<and> (start < blobSize f \<longrightarrow> rest \<noteq> [])"
  using assms
proof (induction "blobSize f - start" arbitrary: start acc rule: less_induct)
  case less
  show ?case
  proof (cases "start < blobSize f")
    case False
    with less.prems have "start = blobSize f" by simp
    then show ?thesis
      by (subst splitLoop.simps) (simp add: blobSize_def)
  next
    case True
    define endPos where "endPos = min (start + c) (blobSize f)"
    define chunk where "chunk = Blob (take (endPos - start) (drop start (blobBytes f))) (blobType f)"
    have e1: "start < endPos" "endPos \<le> blobSize f"
      using True less.prems(1) by (simp_all add: endPos_def)
    have cb: "blobBytes chunk = take c (drop start (blobBytes f))"
      by (auto simp: chunk_def endPos_def blobSize_def min_def)
    have clen: "length (blobBytes chunk) = endPos - start"
      using e1 by (auto simp: cb endPos_def blobSize_def min_def)
    have "blobSize f - endPos < blobSize f - start"
      using e1 by simp
    from less.hyps [OF this less.prems(1) e1(2) less.prems(3), of "acc @ [chunk]"]
    obtain rest where r:
      "splitLoop f (Fin (of_nat c)) ((acc @ [chunk]) ) (Fin (of_nat endPos)) = Some ((acc @ [chunk]) @ rest)"
      "concat (map blobBytes rest) = drop endPos (blobBytes f)"
      "\<forall>k. Suc k < length rest \<longrightarrow> length (blobBytes (rest ! k)) = c"
      "\<forall>k < length rest. 0 < length (blobBytes (rest ! k)) \<and> length (blobBytes (rest ! k)) \<le> c"
      "\<forall>k < length rest. blobType (rest ! k) = blobType f"
      "endPos < blobSize f \<longrightarrow> rest \<noteq> []"
      by blast
    from splitLoop_step [OF True less.prems(3), of c acc]
    have step: "splitLoop f (Fin (of_nat c)) acc (Fin (of_nat start)) = Some (acc @ chunk # rest)"
      using r(1) by (simp add: endPos_def chunk_def)
    have cat: "concat (map blobBytes (chunk # rest)) = drop start (blobBytes f)"
    proof -
      have "drop endPos (blobBytes f) = drop c (drop start (blobBytes f))"
      proof (cases "start + c \<le> blobSize f")
        case True
        then show ?thesis by (simp add: endPos_def add.commute)
      next
        case False
        then show ?thesis by (simp add: endPos_def blobSize_def)
      qed
      then have "concat (map blobBytes (chunk # rest))
                   = take c (drop start (blobBytes f)) @ drop c (drop start (blobBytes f))"
        by (simp add: cb r(2) del: drop_drop)
      then show ?thesis by (simp only: append_take_drop_id)
    qed
    have full: "\<forall>k. Suc k < length (chunk # rest) \<longrightarrow> length (blobBytes ((chunk # rest) ! k)) = c"
    proof (intro allI impI)
      fix k assume k: "Suc k < length (chunk # rest)"
      show "length (blobBytes ((chunk # rest) ! k)) = c"
      proof (cases k)
        case 0
        with k have ne: "rest \<noteq> []" by auto
        then have "0 < length (blobBytes (rest ! 0))" using r(4) by simp
        moreover have "rest = rest ! 0 # tl rest" using ne by (cases rest) simp_all
        ultimately have "concat (map blobBytes rest) \<noteq> []"
          by (metis concat.simps(2) list.simps(9) append_is_Nil_conv length_greater_0_conv)
        then have "endPos < blobSize f" using r(2) by (simp add: blobSize_def)
        then have "endPos = start + c" by (simp add: endPos_def min_def split: if_splits)
        with 0 clen show ?thesis by simp
      next
        case (Suc j)
        with k r(3) show ?thesis by simp
      qed
    qed
    have bound: "\<forall>k < length (chunk # rest). 0 < length (blobBytes ((chunk # rest) ! k)) \<and> length (blobBytes ((chunk # rest) ! k)) \<le> c"
    proof (intro allI impI)
      fix k assume k: "k < length (chunk # rest)"
      show "0 < length (blobBytes ((chunk # rest) ! k)) \<and> length (blobBytes ((chunk # rest) ! k)) \<le> c"
      proof (cases k)
        case 0
        then show ?thesis using clen e1 by (simp add: endPos_def)
      next
        case (Suc j)
        with k r(4) show ?thesis by simp
      qed
    qed
    have ty: "\<forall>k < length (chunk # rest). blobType ((chunk # rest) ! k) = blobType f"
    proof (intro allI impI)
      fix k assume k: "k < length (chunk # rest)"
      show "blobType ((chunk # rest) ! k) = blobType f"
      proof (cases k)
        case 0
        then show ?thesis by (simp add: chunk_def)
      next
        case (Suc j)
        with k r(5) show ?thesis by simp
      qed
    qed
    show ?thesis
      using step cat full bound ty by blast
  qed
qed

text \<open>
  A chunk size of 0 on a file that is not empty never advances the position: the run
  does not return.
\<close>

lemma splitLoop_never_returns:
  assumes "splitLoop f c chunks start = Some r"
  shows "c = Fin 0 \<and> start = Fin 0 \<and> 0 < blobSize f \<longrightarrow> False"
proof (rule splitLoop.raw_induct
    [where P = "\<lambda>f c chunks start r. c = Fin 0 \<and> start = Fin 0 \<and> 0 < blobSize f \<longrightarrow> False",
     OF _ assms])
  fix loop :: "blob \<Rightarrow> number \<Rightarrow> blob list \<Rightarrow> number \<Rightarrow> blob list option"
  fix f c chunks start r
  assume IH: "\<And>f c chunks start r. loop f c chunks start = Some r \<Longrightarrow>
                 c = Fin 0 \<and> start = Fin 0 \<and> 0 < blobSize f \<longrightarrow> False"
  assume body: "(if jsLess start (Fin (of_nat (blobSize f)))
      then (let endPos = Math_min (jsAdd start c) (Fin (of_nat (blobSize f)));
                chunk = slice f start endPos (blobType f)
            in loop f c (chunks @ [chunk]) endPos)
      else Some chunks) = Some r"
  show "c = Fin 0 \<and> start = Fin 0 \<and> 0 < blobSize f \<longrightarrow> False"
  proof
    assume a: "c = Fin 0 \<and> start = Fin 0 \<and> 0 < blobSize f"
    have "Math_min (jsAdd (Fin 0) (Fin 0)) (Fin (of_nat (blobSize f))) = Fin 0"
      by (simp add: roundDouble_def fl_def)
    with body a
    have "loop f c (chunks @ [slice f (Fin 0) (Fin 0) (blobType f)]) start = Some r"
      by (simp add: Let_def)
    from IH [OF this] a show False by blast
  qed
qed

lemma zero_chunk_size_never_returns:
  assumes "0 < blobSize file"
  shows "splitAudioFile file (Fin 0) = None"
proof (rule ccontr)
  assume "splitAudioFile file (Fin 0) \<noteq> None"
  then obtain r where "splitAudioFile file (Fin 0) = Some r" by auto
  with assms have "splitLoop file (Fin 0) [] (Fin 0) = Some r"
    by (simp add: splitAudioFile_def)
  from splitLoop_never_returns [OF this] assms show False by simp
qed

text \<open>
  Claim C10, as amended. For every file (its size an integer below \<open>2^53\<close>, as every
  \<open>file.size\<close> is) and every chunk size that is a positive integer,
  \<open>splitAudioFile\<close> returns; the byte contents of the chunks it returns
  concatenate, in order, to exactly the bytes of the file; every chunk except possibly
  the last has exactly the chunk size and the last has at most the chunk size; and when
  the file is no larger than the chunk size the result is the one-element list holding
  the file itself.
\<close>

theorem splitAudioFile_partition:
  fixes c :: nat
  assumes "0 < c" "blobSize file < 2 ^ 53"
  shows "\<exists>chunks. splitAudioFile file (Fin (of_nat c)) = Some chunks
           \<and> chunks \<noteq> []
           \<and> concat (map blobBytes chunks) = blobBytes file
           \<and> (\<forall>k. Suc k < length chunks \<longrightarrow> blobSize (chunks ! k) = c)
           \<and> blobSize (last chunks) \<le> c
           \<and> (blobSize file \<le> c \<longrightarrow> chunks = [file])"
proof (cases "blobSize file \<le> c")
  case True
  then show ?thesis by (simp add: splitAudioFile_def)
next
  case False
  then have pos: "0 < blobSize file" by simp
  have "0 \<le> blobSize file" by simp
  from splitLoop_spec [OF assms(1) this assms(2), of "[]"]
  obtain rest where r:
    "splitLoop file (Fin (of_nat c)) [] (Fin 0) = Some rest"
    "concat (map blobBytes rest) = blobBytes file"
    "\<forall>k. Suc k < length rest \<longrightarrow> length (blobBytes (rest ! k)) = c"
    "\<forall>k < length rest. 0 < length (blobBytes (rest ! k)) \<and> length (blobBytes (rest ! k)) \<le> c"
    "0 < blobSize file \<longrightarrow> rest \<noteq> []"
    by auto
  from r(5) pos have ne: "rest \<noteq> []" by simp
  then have "length (blobBytes (last rest)) \<le> c"
    using r(4) by (simp add: last_conv_nth)
  with r ne False show ?thesis
    by (simp add: splitAudioFile_def blobSize_def)
qed

text \<open>The theorem at a five-byte file split into chunks of two bytes.\<close>

theorem splitAudioFile_partition_witness:
  "\<exists>chunks. splitAudioFile (File [1, 2, 3, 4, 5] ''audio/mpeg'' ''a.mp3'') (Fin 2) = Some chunks
     \<and> chunks \<noteq> []
     \<and> concat (map blobBytes chunks) = [1, 2, 3, 4, 5]
     \<and> (\<forall>k. Suc k < length chunks \<longrightarrow> blobSize (chunks ! k) = 2)
     \<and> blobSize (last chunks) \<le> 2"
  using splitAudioFile_partition [of 2 "File [1, 2, 3, 4, 5] ''audio/mpeg'' ''a.mp3''"]
  by (simp add: blobSize_def)

text \<open>
  The claim as stated, for every positive chunk size, fails at a size that is not an
  integer. With a file of five bytes and a chunk size of 2.5 the loop slices at the
  positions 0, 2.5 and 5, which \<open>slice\<close> rounds to 0, 2 and 5: the first chunk has 2
  bytes, not 2.5, and the last has 3 bytes, more than the chunk size.
\<close>

theorem splitAudioFile_fractional_size:
  "splitAudioFile (File [1, 2, 3, 4, 5] ''audio/mpeg'' ''a.mp3'') (Fin (5 / 2))
     = Some [Blob [1, 2] ''audio/mpeg'', Blob [3, 4, 5] ''audio/mpeg'']
   \<and> Fin (of_nat (blobSize (Blob [1, 2] ''audio/mpeg''))) \<noteq> Fin (5 / 2)
   \<and> \<not> jsLessEq (Fin (of_nat (blobSize (Blob [3, 4, 5] ''audio/mpeg'')))) (Fin (5 / 2))"
  by (simp add: splitAudioFile_def blobSize_def splitLoop.simps slice_def
      roundDouble_def fl_eval)

text \<open>The chunks of the run at the integer size 2: two full slices and a last one of one byte.\<close>

lemma splitAudioFile_example:
  "splitAudioFile (File [1, 2, 3, 4, 5] ''audio/mpeg'' ''a.mp3'') (Fin 2)
     = Some [Blob [1, 2] ''audio/mpeg'', Blob [3, 4] ''audio/mpeg'', Blob [5] ''audio/mpeg'']"
  by (simp add: splitAudioFile_def blobSize_def splitLoop.simps slice_def
      roundDouble_def fl_eval)

section \<open>Sample quantization\<close>

text \<open>
  The samples of an \<open>AudioBuffer\<close> are 32-bit floats read as JavaScript numbers. On
  the sample path the only arithmetic is the product of a clamped sample with
  \<open>0x8000\<close> or \<open>0x7FFF\<close>: a 24-bit significand times a 15-bit constant fits the 53
  bits of a double, so that product is exact and \<open>jsMul\<close> does not round.
\<close>

fun jsMul :: "number \<Rightarrow> number \<Rightarrow> number" where
  "jsMul NaN y = NaN"
| "jsMul x NaN = NaN"
| "jsMul (Fin a) (Fin b) = Fin (a * b)"
| "jsMul (Fin a) PosInf = (if a = 0 then NaN else if 0 < a then PosInf else NegInf)"
| "jsMul (Fin a) NegInf = (if a = 0 then NaN else if 0 < a then NegInf else PosInf)"
| "jsMul PosInf (Fin b) = (if b = 0 then NaN else if 0 < b then PosInf else NegInf)"
| "jsMul NegInf (Fin b) = (if b = 0 then NaN else if 0 < b then NegInf else PosInf)"
| "jsMul PosInf PosInf = PosInf"
| "jsMul NegInf NegInf = PosInf"
| "jsMul PosInf NegInf = NegInf"
| "jsMul NegInf PosInf = NegInf"

text \<open>
  \<open>DataView.setInt16\<close> converts its argument with ToInt16: NaN and the infinities
  become 0, a finite value is truncated towards zero and reduced modulo \<open>2^16\<close>.
\<close>

definition trunc :: "rat \<Rightarrow> int" where
  "trunc x = (if 0 \<le> x then \<lfloor>x\<rfloor> else \<lceil>x\<rceil>)"

fun ToInt16 :: "number \<Rightarrow> 16 word" where
  "ToInt16 (Fin x) = word_of_int (trunc x)"
| "ToInt16 v = 0"

text \<open>Lines 159 and 161 of the encoder: the clamp and the asymmetric scaling.\<close>

definition clampedSample :: "number \<Rightarrow> number" where
  "clampedSample sample = Math_max (Fin (- 1)) (Math_min (Fin 1) sample)"

definition intSample :: "number \<Rightarrow> number" where
  "intSample sample =
     (if jsLess (clampedSample sample) (Fin 0)
      then jsMul (clampedSample sample) (Fin 32768)
      else jsMul (clampedSample sample) (Fin 32767))"

lemma trunc_bounds:
  assumes "- 32768 \<le> x" "x \<le> 32767"
  shows "- 32768 \<le> trunc x \<and> trunc x \<le> 32767"
proof (cases "0 \<le> x")
  case True
  then have "0 \<le> \<lfloor>x\<rfloor>" by simp
  moreover have "\<lfloor>x\<rfloor> \<le> 32767" using assms(2) by (simp add: floor_le_iff)
  ultimately show ?thesis using True by (simp add: trunc_def)
next
  case False
  then have "\<lceil>x\<rceil> \<le> 0" by (simp add: ceiling_le_iff)
  moreover have "- 32768 \<le> \<lceil>x\<rceil>" using assms(1) by (simp add: le_ceiling_iff)
  ultimately show ?thesis using False by (simp add: trunc_def)
qed

lemma sint_word16_of_int:
  "- 32768 \<le> k \<Longrightarrow> k \<le> 32767 \<Longrightarrow> sint (word_of_int k :: 16 word) = k"
  by (simp add: sint_sbintrunc' signed_take_bit_int_eq_self)

lemma intSample_Fin:
  "intSample (Fin x) =
     Fin (if max (- 1) (min 1 x) < 0 then max (- 1) (min 1 x) * 32768
          else max (- 1) (min 1 x) * 32767)"
  by (auto simp: intSample_def clampedSample_def max_def min_def)

lemma scaled_range:
  fixes x :: rat
  defines "c \<equiv> max (- 1) (min 1 x)"
  shows "- 32768 \<le> (if c < 0 then c * 32768 else c * 32767)
         \<and> (if c < 0 then c * 32768 else c * 32767) \<le> 32767"
  by (auto simp: c_def max_def min_def)

text \<open>
  Claim C2, as amended. For every sample the encoder clamps to \<open>[-1, 1]\<close>, scales a
  negative clamped value by 32768 and any other by 32767, and stores the product
  truncated towards zero (not rounded to nearest); the truncated value lies in the
  signed 16-bit range, so storing it never wraps. The infinities clamp to the range
  ends and NaN is stored as 0.
\<close>

theorem quantize_truncates:
  fixes x :: rat
  defines "c \<equiv> max (- 1) (min 1 x)"
  shows "sint (ToInt16 (intSample (Fin x))) = trunc (if c < 0 then c * 32768 else c * 32767)
   \<and> - 32768 \<le> trunc (if c < 0 then c * 32768 else c * 32767)
   \<and> trunc (if c < 0 then c * 32768 else c * 32767) \<le> 32767
   \<and> sint (ToInt16 (intSample PosInf)) = 32767
   \<and> sint (ToInt16 (intSample NegInf)) = - 32768
   \<and> sint (ToInt16 (intSample NaN)) = 0"
proof -
  let ?s = "if c < 0 then c * 32768 else c * 32767"
  have b: "- 32768 \<le> trunc ?s \<and> trunc ?s \<le> 32767"
    using scaled_range [of x] unfolding c_def by (intro trunc_bounds) simp_all
  have "intSample (Fin x) = Fin ?s"
    unfolding c_def by (rule intSample_Fin)
  with b have "sint (ToInt16 (intSample (Fin x))) = trunc ?s"
    by (simp add: sint_word16_of_int)
  moreover have "sint (ToInt16 (intSample PosInf)) = 32767"
    by (simp add: intSample_def clampedSample_def trunc_def)
  moreover have "sint (ToInt16 (intSample NegInf)) = - 32768"
    by (simp add: intSample_def clampedSample_def trunc_def)
  moreover have "sint (ToInt16 (intSample NaN)) = 0"
    by (simp add: intSample_def clampedSample_def)
  ultimately show ?thesis using b by blast
qed

text \<open>
  The claim as stated fails at the sample \<open>0.25\<close>: the product \<open>8191.75\<close> is stored
  as 8191, and rounding to nearest gives 8192.
\<close>

theorem quantize_not_round:
  "sint (ToInt16 (intSample (Fin (1 / 4)))) \<noteq> round (1 / 4 * 32767 :: rat)"
  by (simp add: intSample_def clampedSample_def trunc_def round_def rat_eval)

text \<open>
  Claim C8. A sample of exactly 1.0 encodes to 32767, a sample of exactly -1.0 to
  -32768, and the out-of-range sample 1.5 to the same 16-bit value as 1.0.
\<close>

theorem quantize_boundaries:
  "sint (ToInt16 (intSample (Fin 1))) = 32767
   \<and> sint (ToInt16 (intSample (Fin (- 1)))) = - 32768
   \<and> ToInt16 (intSample (Fin (3 / 2))) = ToInt16 (intSample (Fin 1))"
  by (simp add: intSample_def clampedSample_def trunc_def)

section \<open>The \<open>DataView\<close> over the output buffer\<close>

text \<open>
  The view is the byte array it writes to. The setters convert their argument to the
  field's width (modulo \<open>2^8\<close>, \<open>2^16\<close> or \<open>2^32\<close>) and store the bytes in the
  order the \<open>littleEndian\<close> flag selects. Every offset the encoder writes lies inside
  the buffer it allocated, so the \<open>RangeError\<close> of an out-of-bounds write has no
  branch here. The getters are \<open>DataView\<close>'s own; the encoder does not call them, the
  theorems read the result through them.
\<close>

type_synonym DataView = "byte list"

definition setUint8 :: "DataView \<Rightarrow> nat \<Rightarrow> nat \<Rightarrow> DataView" where
  "setUint8 view byteOffset v = view[byteOffset := of_nat v]"

definition setUint16 :: "DataView \<Rightarrow> nat \<Rightarrow> nat \<Rightarrow> bool \<Rightarrow> DataView" where
  "setUint16 view byteOffset v littleEndian =
     (let w = (of_nat v :: 16 word); b0 = ucast w; b1 = ucast (drop_bit 8 w)
      in if littleEndian then view[byteOffset := b0, byteOffset + 1 := b1]
         else view[byteOffset := b1, byteOffset + 1 := b0])"

definition setUint32 :: "DataView \<Rightarrow> nat \<Rightarrow> nat \<Rightarrow> bool \<Rightarrow> DataView" where
  "setUint32 view byteOffset v littleEndian =
     (let w = (of_nat v :: 32 word); b0 = ucast w; b1 = ucast (drop_bit 8 w);
          b2 = ucast (drop_bit 16 w); b3 = ucast (drop_bit 24 w)
      in if littleEndian
         then view[byteOffset := b0, byteOffset + 1 := b1, byteOffset + 2 := b2, byteOffset + 3 := b3]
         else view[byteOffset := b3, byteOffset + 1 := b2, byteOffset + 2 := b1, byteOffset + 3 := b0])"

definition setInt16 :: "DataView \<Rightarrow> nat \<Rightarrow> number \<Rightarrow> bool \<Rightarrow> DataView" where
  "setInt16 view byteOffset v littleEndian =
     (let w = ToInt16 v; b0 = ucast w; b1 = ucast (drop_bit 8 w)
      in if littleEndian then view[byteOffset := b0, byteOffset + 1 := b1]
         else view[byteOffset := b1, byteOffset + 1 := b0])"

definition getUint16 :: "DataView \<Rightarrow> nat \<Rightarrow> bool \<Rightarrow> nat" where
  "getUint16 view byteOffset littleEndian =
     (if littleEndian then unat (view ! byteOffset) + 256 * unat (view ! (byteOffset + 1))
      else unat (view ! (byteOffset + 1)) + 256 * unat (view ! byteOffset))"

definition getUint32 :: "DataView \<Rightarrow> nat \<Rightarrow> bool \<Rightarrow> nat" where
  "getUint32 view byteOffset littleEndian =
     (if littleEndian
      then unat (view ! byteOffset) + 256 * unat (view ! (byteOffset + 1))
           + 65536 * unat (view ! (byteOffset + 2)) + 16777216 * unat (view ! (byteOffset + 3))
      else unat (view ! (byteOffset + 3)) + 256 * unat (view ! (byteOffset + 2))
           + 65536 * unat (view ! (byteOffset + 1)) + 16777216 * unat (view ! byteOffset))"

definition getInt16 :: "DataView \<Rightarrow> nat \<Rightarrow> bool \<Rightarrow> int" where
  "getInt16 view byteOffset littleEndian =
     (if littleEndian
      then sint (word_cat (view ! (byteOffset + 1)) (view ! byteOffset) :: 16 word)
      else sint (word_cat (view ! byteOffset) (view ! (byteOffset + 1)) :: 16 word))"

text \<open>The little-endian bytes of a 16-bit and of a 32-bit word.\<close>

definition le16 :: "16 word \<Rightarrow> byte list" where
  "le16 w = [ucast w, ucast (drop_bit 8 w)]"

definition le32 :: "32 word \<Rightarrow> byte list" where
  "le32 w = [ucast w, ucast (drop_bit 8 w), ucast (drop_bit 16 w), ucast (drop_bit 24 w)]"

lemma word_cat_le16: "word_cat (ucast (drop_bit 8 w) :: byte) (ucast w :: byte) = (w :: 16 word)"
  by (rule bit_word_eqI) (auto simp: bit_simps)

lemma unat_ucast_byte: "unat (ucast w :: byte) = unat w mod 256"
  for w :: "'a::len word"
  by (simp add: unsigned_ucast_eq take_bit_eq_mod)

lemma unat_drop_bit_div: "unat (drop_bit n w) = unat w div 2 ^ n"
proof -
  have "unat (drop_bit n w) = drop_bit n (unat w)" by (rule unat_drop_bit_eq)
  also have "\<dots> = unat w div 2 ^ n" by (rule drop_bit_eq_div)
  finally show ?thesis .
qed

lemma unat_le16:
  "unat (ucast w :: byte) + 256 * unat (ucast (drop_bit 8 w) :: byte) = unat (w :: 16 word)"
proof -
  have "unat w < 65536" using unsigned_less [of w, where 'a = nat] by simp
  then have "unat (ucast (drop_bit 8 w) :: byte) = unat w div 256"
    by (simp add: unat_ucast_byte unat_drop_bit_div)
  then show ?thesis by (simp add: unat_ucast_byte)
qed

lemma unat_le32:
  "unat (ucast w :: byte) + 256 * unat (ucast (drop_bit 8 w) :: byte)
     + 65536 * unat (ucast (drop_bit 16 w) :: byte)
     + 16777216 * unat (ucast (drop_bit 24 w) :: byte) = unat (w :: 32 word)"
proof -
  define n where "n = unat w"
  define m1 where "m1 = n div 256"
  define m2 where "m2 = m1 div 256"
  define m3 where "m3 = m2 div 256"
  have lt: "n < 4294967296" using unsigned_less [of w, where 'a = nat] by (simp add: n_def)
  have e2: "n div 65536 = m2" by (simp add: m2_def m1_def div_mult2_eq)
  have e3: "n div 16777216 = m3" by (simp add: m3_def m2_def m1_def div_mult2_eq)
  have "m3 < 256" using lt unfolding e3 [symmetric] by simp
  then have m3: "m3 mod 256 = m3" by simp
  have a: "unat (ucast w :: byte) = n mod 256"
    by (simp add: unat_ucast_byte n_def)
  have b: "unat (ucast (drop_bit 8 w) :: byte) = m1 mod 256"
    by (simp add: unat_ucast_byte unat_drop_bit_div n_def m1_def)
  have c: "unat (ucast (drop_bit 16 w) :: byte) = m2 mod 256"
    using e2 by (simp add: unat_ucast_byte unat_drop_bit_div n_def)
  have d: "unat (ucast (drop_bit 24 w) :: byte) = m3"
    using e3 m3 by (simp add: unat_ucast_byte unat_drop_bit_div n_def)
  have s0: "n = n mod 256 + 256 * m1" by (simp add: m1_def)
  have s1: "m1 = m1 mod 256 + 256 * m2" by (simp add: m2_def)
  have s2: "m2 = m2 mod 256 + 256 * m3" by (simp add: m3_def)
  have "n mod 256 + 256 * (m1 mod 256) + 65536 * (m2 mod 256) + 16777216 * m3 = n"
    using s0 s1 s2 by linarith
  then show ?thesis unfolding a b c d n_def .
qed

section \<open>The WAV encoder: \<open>audioBufferToWav\<close>\<close>

text \<open>
  An \<open>AudioBuffer\<close>: \<open>bufLength\<close> is its \<open>length\<close> in sample frames, the sample
  rate is a whole number of hertz, and \<open>channelData\<close> holds one sample array per
  channel. The platform keeps every buffer well formed: as many arrays as channels,
  each of the buffer's length.
\<close>

record AudioBuffer =
  numberOfChannels :: nat
  sampleRate :: nat
  bufLength :: nat
  channelData :: "number list list"

definition getChannelData :: "AudioBuffer \<Rightarrow> nat \<Rightarrow> number list" where
  "getChannelData buffer channel = channelData buffer ! channel"

definition wellFormed :: "AudioBuffer \<Rightarrow> bool" where
  "wellFormed buffer \<longleftrightarrow>
     length (channelData buffer) = numberOfChannels buffer
     \<and> (\<forall>ch \<in> set (channelData buffer). length ch = bufLength buffer)"

text \<open>
  The helper \<open>writeString\<close>, the header writes (lines 134 to 151) and the nested
  loop over frames and channels (lines 154 to 165), which threads the view and the
  write offset.
\<close>

definition writeString :: "DataView \<Rightarrow> nat \<Rightarrow> string \<Rightarrow> DataView" where
  "writeString view offset str =
     fold (\<lambda>i v. setUint8 v (offset + i) (of_char (str ! i))) [0..<length str] view"

definition writeHeader :: "DataView \<Rightarrow> nat \<Rightarrow> nat \<Rightarrow> nat \<Rightarrow> DataView" where
  "writeHeader view0 numChannels rate numSamples =
     (let format = 1;
          bitDepth = 16;
          dataSize = numSamples * numChannels * (bitDepth div 8);
          blockAlign = numChannels * (bitDepth div 8);
          byteRate = rate * blockAlign;
          view = writeString view0 0 ''RIFF'';
          view = setUint32 view 4 (36 + dataSize) True;
          view = writeString view 8 ''WAVE'';
          view = writeString view 12 ''fmt '';
          view = setUint32 view 16 16 True;
          view = setUint16 view 20 format True;
          view = setUint16 view 22 numChannels True;
          view = setUint32 view 24 rate True;
          view = setUint32 view 28 byteRate True;
          view = setUint16 view 32 blockAlign True;
          view = setUint16 view 34 bitDepth True;
          view = writeString view 36 ''data'';
          view = setUint32 view 40 dataSize True
      in view)"

definition writeSamples :: "AudioBuffer \<Rightarrow> DataView \<times> nat \<Rightarrow> DataView \<times> nat" where
  "writeSamples buffer =
     fold (\<lambda>i. fold (\<lambda>channel (view, offset).
             (setInt16 view offset (intSample (getChannelData buffer channel ! i)) True, offset + 2))
           [0..<numberOfChannels buffer])
       [0..<bufLength buffer]"

definition audioBufferToWav :: "AudioBuffer \<Rightarrow> blob" where
  "audioBufferToWav buffer =
     (let numChannels = numberOfChannels buffer;
          numSamples = bufLength buffer;
          dataSize = numSamples * numChannels * (16 div 8);
          headerSize = 44;
          bufferSize = headerSize + dataSize;
          view = writeHeader (replicate bufferSize 0) numChannels (sampleRate buffer) numSamples;
          (view, offset) = writeSamples buffer (view, 44)
      in Blob view ''audio/wav'')"

text \<open>
  The closed form of the output: the 44 header bytes, then one little-endian 16-bit
  word per frame and channel, frames outermost.
\<close>

definition asciiBytes :: "string \<Rightarrow> byte list" where
  "asciiBytes str = map (\<lambda>c. of_nat (of_char c)) str"

definition wavHeaderBytes :: "nat \<Rightarrow> nat \<Rightarrow> nat \<Rightarrow> byte list" where
  "wavHeaderBytes numChannels rate numSamples =
     asciiBytes ''RIFF'' @ le32 (of_nat (36 + numSamples * numChannels * 2))
     @ asciiBytes ''WAVE'' @ asciiBytes ''fmt '' @ le32 (of_nat 16) @ le16 (of_nat 1)
     @ le16 (of_nat numChannels) @ le32 (of_nat rate) @ le32 (of_nat (rate * (numChannels * 2)))
     @ le16 (of_nat (numChannels * 2)) @ le16 (of_nat 16)
     @ asciiBytes ''data'' @ le32 (of_nat (numSamples * numChannels * 2))"

definition pcmWords :: "AudioBuffer \<Rightarrow> 16 word list" where
  "pcmWords buffer =
     concat (map (\<lambda>i. map (\<lambda>channel. ToInt16 (intSample (getChannelData buffer channel ! i)))
                         [0..<numberOfChannels buffer])
               [0..<bufLength buffer])"

lemma list_update_Cons_numeral:
  "(x # xs)[numeral v := y] = x # xs[numeral v - 1 := y]"
  by (simp add: numeral_eq_Suc)

lemma replicate44:
  "replicate 44 b =
     [b, b, b, b, b, b, b, b, b, b, b, b, b, b, b, b, b, b, b, b, b, b,
      b, b, b, b, b, b, b, b, b, b, b, b, b, b, b, b, b, b, b, b, b, b]"
  by (simp add: numeral_eq_Suc)

lemma writeHeader_bytes:
  "writeHeader (replicate (44 + n) 0) numChannels rate numSamples
     = wavHeaderBytes numChannels rate numSamples @ replicate n 0"
  by (simp add: writeHeader_def wavHeaderBytes_def replicate_add replicate44 writeString_def
      setUint8_def setUint16_def setUint32_def le16_def le32_def asciiBytes_def Let_def
      list_update_Cons_numeral)

lemma length_wavHeaderBytes [simp]: "length (wavHeaderBytes numChannels rate numSamples) = 44"
  by (simp add: wavHeaderBytes_def le16_def le32_def asciiBytes_def)

lemma length_pcmWords: "length (pcmWords buffer) = bufLength buffer * numberOfChannels buffer"
  by (simp add: pcmWords_def length_concat comp_def sum_list_triv)

definition putInt16 :: "number \<Rightarrow> DataView \<times> nat \<Rightarrow> DataView \<times> nat" where
  "putInt16 v = (\<lambda>(view, offset). (setInt16 view offset v True, offset + 2))"

lemma fold_putInt16:
  "fold putInt16 vs (pre @ replicate (2 * length vs) 0 @ post, length pre)
     = (pre @ concat (map (\<lambda>v. le16 (ToInt16 v)) vs) @ post, length pre + 2 * length vs)"
proof (induction vs arbitrary: pre)
  case Nil
  show ?case by simp
next
  case (Cons v vs)
  have "putInt16 v (pre @ replicate (2 * length (v # vs)) 0 @ post, length pre)
          = ((pre @ le16 (ToInt16 v)) @ replicate (2 * length vs) 0 @ post, length (pre @ le16 (ToInt16 v)))"
    by (simp add: putInt16_def setInt16_def le16_def Let_def list_update_append)
  then show ?case
    using Cons.IH [of "pre @ le16 (ToInt16 v)"] by (simp add: le16_def)
qed

lemma fold_fold_concat:
  "fold (\<lambda>i. fold (\<lambda>c. f (g i c)) cs) is st = fold f (concat (map (\<lambda>i. map (g i) cs) is)) st"
proof (induction "is" arbitrary: st)
  case Nil
  show ?case by simp
next
  case (Cons i "is")
  have "fold (\<lambda>c. f (g i c)) cs = fold f (map (g i) cs)"
    by (simp add: fold_map comp_def)
  then show ?case using Cons.IH by simp
qed

lemma writeSamples_fold:
  "writeSamples buffer st
     = fold putInt16 (concat (map (\<lambda>i. map (\<lambda>channel. intSample (getChannelData buffer channel ! i))
                                         [0..<numberOfChannels buffer]) [0..<bufLength buffer])) st"
  unfolding writeSamples_def putInt16_def [symmetric, abs_def]
  by (rule fold_fold_concat [where f = putInt16])

lemma audioBufferToWav_bytes:
  "blobBytes (audioBufferToWav buffer)
     = wavHeaderBytes (numberOfChannels buffer) (sampleRate buffer) (bufLength buffer)
       @ concat (map le16 (pcmWords buffer))"
proof -
  define vs where "vs = concat (map (\<lambda>i. map (\<lambda>channel. intSample (getChannelData buffer channel ! i))
                                         [0..<numberOfChannels buffer]) [0..<bufLength buffer])"
  define H where "H = wavHeaderBytes (numberOfChannels buffer) (sampleRate buffer) (bufLength buffer)"
  have len: "length vs = bufLength buffer * numberOfChannels buffer"
    by (simp add: vs_def length_concat comp_def sum_list_triv)
  have words: "pcmWords buffer = map ToInt16 vs"
    by (simp add: pcmWords_def vs_def map_concat comp_def)
  have hdr: "writeHeader (replicate (44 + bufLength buffer * numberOfChannels buffer * 2) 0)
               (numberOfChannels buffer) (sampleRate buffer) (bufLength buffer)
             = H @ replicate (2 * length vs) 0"
    by (simp add: writeHeader_bytes H_def len mult.commute)
  have ws: "writeSamples buffer (H @ replicate (2 * length vs) 0, 44)
          = (H @ concat (map (\<lambda>v. le16 (ToInt16 v)) vs), 44 + 2 * length vs)"
    using fold_putInt16 [of vs H "[]"] by (simp add: writeSamples_fold vs_def H_def)
  show ?thesis
    by (simp add: audioBufferToWav_def Let_def hdr ws words comp_def H_def [symmetric])
qed

lemma header_tags:
  "take 4 (wavHeaderBytes n r l @ rest) = asciiBytes ''RIFF''"
  "take 4 (drop 8 (wavHeaderBytes n r l @ rest)) = asciiBytes ''WAVE''"
  "take 4 (drop 12 (wavHeaderBytes n r l @ rest)) = asciiBytes ''fmt ''"
  "take 4 (drop 36 (wavHeaderBytes n r l @ rest)) = asciiBytes ''data''"
  by (simp_all add: wavHeaderBytes_def le16_def le32_def asciiBytes_def)

lemma getUint32_le32:
  "length pre = k \<Longrightarrow> getUint32 (pre @ le32 (of_nat v) @ post) k True = v mod 2 ^ 32"
  using unat_le32 [of "of_nat v"]
  by (simp add: getUint32_def le32_def nth_append unat_of_nat)

lemma getUint16_le16:
  "length pre = k \<Longrightarrow> getUint16 (pre @ le16 (of_nat v) @ post) k True = v mod 2 ^ 16"
  using unat_le16 [of "of_nat v"]
  by (simp add: getUint16_def le16_def nth_append unat_of_nat)

lemma header_fields:
  "getUint32 (wavHeaderBytes n r l @ rest) 4 True = (36 + l * n * 2) mod 2 ^ 32"
  "getUint32 (wavHeaderBytes n r l @ rest) 16 True = 16"
  "getUint16 (wavHeaderBytes n r l @ rest) 20 True = 1"
  "getUint16 (wavHeaderBytes n r l @ rest) 22 True = n mod 2 ^ 16"
  "getUint32 (wavHeaderBytes n r l @ rest) 24 True = r mod 2 ^ 32"
  "getUint32 (wavHeaderBytes n r l @ rest) 28 True = (r * (n * 2)) mod 2 ^ 32"
  "getUint16 (wavHeaderBytes n r l @ rest) 32 True = (n * 2) mod 2 ^ 16"
  "getUint16 (wavHeaderBytes n r l @ rest) 34 True = 16"
  "getUint32 (wavHeaderBytes n r l @ rest) 40 True = (l * n * 2) mod 2 ^ 32"
proof -
  let ?A = "asciiBytes ''RIFF''"
  show "getUint32 (wavHeaderBytes n r l @ rest) 4 True = (36 + l * n * 2) mod 2 ^ 32"
    using getUint32_le32 [of ?A 4 "36 + l * n * 2"]
    by (simp add: wavHeaderBytes_def asciiBytes_def)
  show "getUint32 (wavHeaderBytes n r l @ rest) 16 True = 16"
    using getUint32_le32 [of "?A @ le32 (of_nat (36 + l * n * 2)) @ asciiBytes ''WAVE'' @ asciiBytes ''fmt ''" 16 16]
    by (simp add: wavHeaderBytes_def asciiBytes_def le32_def)
  show "getUint16 (wavHeaderBytes n r l @ rest) 20 True = 1"
    using getUint16_le16 [of "?A @ le32 (of_nat (36 + l * n * 2)) @ asciiBytes ''WAVE'' @ asciiBytes ''fmt '' @ le32 (of_nat 16)" 20 1]
    by (simp add: wavHeaderBytes_def asciiBytes_def le32_def)
  show "getUint16 (wavHeaderBytes n r l @ rest) 22 True = n mod 2 ^ 16"
    using getUint16_le16 [of "?A @ le32 (of_nat (36 + l * n * 2)) @ asciiBytes ''WAVE'' @ asciiBytes ''fmt '' @ le32 (of_nat 16) @ le16 (of_nat 1)" 22 n]
    by (simp add: wavHeaderBytes_def asciiBytes_def le32_def le16_def)
  show "getUint32 (wavHeaderBytes n r l @ rest) 24 True = r mod 2 ^ 32"
    using getUint32_le32 [of "?A @ le32 (of_nat (36 + l * n * 2)) @ asciiBytes ''WAVE'' @ asciiBytes ''fmt '' @ le32 (of_nat 16) @ le16 (of_nat 1) @ le16 (of_nat n)" 24 r]
    by (simp add: wavHeaderBytes_def asciiBytes_def le32_def le16_def)
  show "getUint32 (wavHeaderBytes n r l @ rest) 28 True = (r * (n * 2)) mod 2 ^ 32"
    using getUint32_le32 [of "?A @ le32 (of_nat (36 + l * n * 2)) @ asciiBytes ''WAVE'' @ asciiBytes ''fmt '' @ le32 (of_nat 16) @ le16 (of_nat 1) @ le16 (of_nat n) @ le32 (of_nat r)" 28 "r * (n * 2)"]
    by (simp add: wavHeaderBytes_def asciiBytes_def le32_def le16_def)
  show "getUint16 (wavHeaderBytes n r l @ rest) 32 True = (n * 2) mod 2 ^ 16"
    using getUint16_le16 [of "?A @ le32 (of_nat (36 + l * n * 2)) @ asciiBytes ''WAVE'' @ asciiBytes ''fmt '' @ le32 (of_nat 16) @ le16 (of_nat 1) @ le16 (of_nat n) @ le32 (of_nat r) @ le32 (of_nat (r * (n * 2)))" 32 "n * 2"]
    by (simp add: wavHeaderBytes_def asciiBytes_def le32_def le16_def)
  show "getUint16 (wavHeaderBytes n r l @ rest) 34 True = 16"
    using getUint16_le16 [of "?A @ le32 (of_nat (36 + l * n * 2)) @ asciiBytes ''WAVE'' @ asciiBytes ''fmt '' @ le32 (of_nat 16) @ le16 (of_nat 1) @ le16 (of_nat n) @ le32 (of_nat r) @ le32 (of_nat (r * (n * 2))) @ le16 (of_nat (n * 2))" 34 16]
    by (simp add: wavHeaderBytes_def asciiBytes_def le32_def le16_def)
  show "getUint32 (wavHeaderBytes n r l @ rest) 40 True = (l * n * 2) mod 2 ^ 32"
    using getUint32_le32 [of "?A @ le32 (of_nat (36 + l * n * 2)) @ asciiBytes ''WAVE'' @ asciiBytes ''fmt '' @ le32 (of_nat 16) @ le16 (of_nat 1) @ le16 (of_nat n) @ le32 (of_nat r) @ le32 (of_nat (r * (n * 2))) @ le16 (of_nat (n * 2)) @ le16 (of_nat 16) @ asciiBytes ''data''" 40 "l * n * 2"]
    by (simp add: wavHeaderBytes_def asciiBytes_def le32_def le16_def)
qed

lemma length_audioBufferToWav:
  "length (blobBytes (audioBufferToWav buffer)) = 44 + bufLength buffer * numberOfChannels buffer * 2"
  by (simp add: audioBufferToWav_bytes length_concat comp_def le16_def sum_list_triv length_pcmWords)

lemma blobType_audioBufferToWav: "blobType (audioBufferToWav buffer) = ''audio/wav''"
  by (simp add: audioBufferToWav_def Let_def split: prod.split)

text \<open>
  Claim C3, as amended. The encoder's output is 44 header bytes followed by two bytes
  per frame and channel; the header holds the markers RIFF, WAVE, fmt and data at
  offsets 0, 8, 12 and 36, and at offsets 4, 16, 20, 22, 24, 28, 32, 34 and 40 the
  little-endian values \<open>36 + dataSize\<close>, 16, 1, the channel count, the sample rate,
  the byte rate, the block alignment, 16 and \<open>dataSize\<close>, each reduced modulo the size
  of its field (\<open>2^32\<close> for a four-byte field, \<open>2^16\<close> for a two-byte field), hence
  exactly the table's value whenever that value fits its field.
\<close>

theorem wav_header_layout:
  fixes buffer :: AudioBuffer
  defines "view \<equiv> blobBytes (audioBufferToWav buffer)"
  defines "dataSize \<equiv> bufLength buffer * numberOfChannels buffer * 2"
  shows "length view = 44 + dataSize
    \<and> take 4 view = asciiBytes ''RIFF''
    \<and> getUint32 view 4 True = (36 + dataSize) mod 2 ^ 32
    \<and> take 4 (drop 8 view) = asciiBytes ''WAVE''
    \<and> take 4 (drop 12 view) = asciiBytes ''fmt ''
    \<and> getUint32 view 16 True = 16
    \<and> getUint16 view 20 True = 1
    \<and> getUint16 view 22 True = numberOfChannels buffer mod 2 ^ 16
    \<and> getUint32 view 24 True = sampleRate buffer mod 2 ^ 32
    \<and> getUint32 view 28 True = (sampleRate buffer * numberOfChannels buffer * 2) mod 2 ^ 32
    \<and> getUint16 view 32 True = (numberOfChannels buffer * 2) mod 2 ^ 16
    \<and> getUint16 view 34 True = 16
    \<and> take 4 (drop 36 view) = asciiBytes ''data''
    \<and> getUint32 view 40 True = dataSize mod 2 ^ 32"
proof -
  have len: "length view = 44 + dataSize"
    by (simp only: view_def dataSize_def length_audioBufferToWav)
  have fields: "take 4 view = asciiBytes ''RIFF''
    \<and> getUint32 view 4 True = (36 + dataSize) mod 2 ^ 32
    \<and> take 4 (drop 8 view) = asciiBytes ''WAVE''
    \<and> take 4 (drop 12 view) = asciiBytes ''fmt ''
    \<and> getUint32 view 16 True = 16
    \<and> getUint16 view 20 True = 1
    \<and> getUint16 view 22 True = numberOfChannels buffer mod 2 ^ 16
    \<and> getUint32 view 24 True = sampleRate buffer mod 2 ^ 32
    \<and> getUint32 view 28 True = (sampleRate buffer * numberOfChannels buffer * 2) mod 2 ^ 32
    \<and> getUint16 view 32 True = (numberOfChannels buffer * 2) mod 2 ^ 16
    \<and> getUint16 view 34 True = 16
    \<and> take 4 (drop 36 view) = asciiBytes ''data''
    \<and> getUint32 view 40 True = dataSize mod 2 ^ 32"
    unfolding view_def dataSize_def audioBufferToWav_bytes
    by (simp only: header_tags header_fields mult.assoc simp_thms)
  from len fields show ?thesis by (rule conjI)
qed

text \<open>
  The theorem at the single-channel, one-second, 44100 Hz buffer of zero samples:
  \<open>44 + 44100 * 2\<close> bytes, with the data size 88200 at offset 40.
\<close>

theorem wav_header_layout_zero_second:
  "length (blobBytes (audioBufferToWav
      \<lparr>numberOfChannels = 1, sampleRate = 44100, bufLength = 44100,
       channelData = [replicate 44100 (Fin 0)]\<rparr>)) = 44 + 44100 * 2
   \<and> getUint32 (blobBytes (audioBufferToWav
      \<lparr>numberOfChannels = 1, sampleRate = 44100, bufLength = 44100,
       channelData = [replicate 44100 (Fin 0)]\<rparr>)) 40 True = 88200"
  using wav_header_layout [of "\<lparr>numberOfChannels = 1, sampleRate = 44100, bufLength = 44100,
       channelData = [replicate 44100 (Fin 0)]\<rparr>"]
  by simp

text \<open>
  The claim as stated fails once the data size no longer fits its four bytes: a mono
  buffer of \<open>2^31\<close> frames has a data size of \<open>2^32\<close> bytes, and offset 40 holds 0.
\<close>

theorem wav_header_dataSize_wraps:
  "getUint32 (blobBytes (audioBufferToWav
      \<lparr>numberOfChannels = 1, sampleRate = 44100, bufLength = 2147483648,
       channelData = [replicate 2147483648 (Fin 0)]\<rparr>)) 40 True
     \<noteq> 2147483648 * 1 * 2"
  by (simp add: audioBufferToWav_bytes header_fields)

lemma nth_concat_le16:
  "k < length ws \<Longrightarrow>
     concat (map le16 ws) ! (2 * k) = ucast (ws ! k)
     \<and> concat (map le16 ws) ! (2 * k + 1) = ucast (drop_bit 8 (ws ! k))"
proof (induction ws arbitrary: k)
  case Nil
  then show ?case by simp
next
  case (Cons w ws)
  show ?case
  proof (cases k)
    case 0
    then show ?thesis by (simp add: le16_def)
  next
    case (Suc j)
    with Cons.prems have "j < length ws" by simp
    from Cons.IH [OF this] show ?thesis by (simp add: Suc le16_def)
  qed
qed

lemma nth_concat_rows:
  "i < l \<Longrightarrow> c < n \<Longrightarrow>
     concat (map (\<lambda>i. map (g i) [0..<n]) [0..<l]) ! (i * n + c) = g i c"
proof (induction l)
  case 0
  then show ?case by simp
next
  case (Suc l)
  have len: "length (concat (map (\<lambda>i. map (g i) [0..<n]) [0..<l])) = l * n"
    by (simp add: length_concat comp_def sum_list_triv)
  show ?case
  proof (cases "i < l")
    case True
    then have "Suc i \<le> l" by simp
    then have "Suc i * n \<le> l * n" by (rule mult_le_mono1)
    with Suc.prems(2) have "i * n + c < l * n" by simp
    with Suc.IH [OF True Suc.prems(2)] show ?thesis by (simp add: nth_append len)
  next
    case False
    with Suc.prems(1) have "i = l" by simp
    with Suc.prems(2) show ?thesis by (simp add: nth_append len)
  qed
qed

lemma pcmWords_nth:
  "i < bufLength buffer \<Longrightarrow> channel < numberOfChannels buffer \<Longrightarrow>
     pcmWords buffer ! (i * numberOfChannels buffer + channel)
       = ToInt16 (intSample (getChannelData buffer channel ! i))"
  unfolding pcmWords_def by (rule nth_concat_rows)

lemma pcm_index_bound:
  "i < l \<Longrightarrow> c < n \<Longrightarrow> i * n + c < l * (n::nat)"
proof -
  assume "i < l" "c < n"
  then have "Suc i * n \<le> l * n" by (intro mult_le_mono1) simp
  with \<open>c < n\<close> show ?thesis by simp
qed

lemma getInt16_sample:
  assumes "i < bufLength buffer" "channel < numberOfChannels buffer"
  shows "getInt16 (blobBytes (audioBufferToWav buffer))
           (44 + 2 * (i * numberOfChannels buffer + channel)) True
         = sint (ToInt16 (intSample (getChannelData buffer channel ! i)))"
proof -
  let ?k = "i * numberOfChannels buffer + channel"
  have k: "?k < length (pcmWords buffer)"
    using assms by (simp add: length_pcmWords pcm_index_bound)
  from nth_concat_le16 [OF k] pcmWords_nth [OF assms]
  show ?thesis
    by (simp add: getInt16_def audioBufferToWav_bytes nth_append word_cat_le16)
qed

text \<open>
  Claim C4. The samples are stored frame-major and channel-minor: the 16-bit value at
  offset \<open>44 + 2 * (i * numberOfChannels + channel)\<close> is the quantized sample of that
  frame and channel, so every channel of frame 0 precedes every channel of frame 1. For
  a 2-channel buffer, offset 44 holds channel 0 of frame 0, offset 46 channel 1 of
  frame 0 and offset 48 channel 0 of frame 1.
\<close>

theorem pcm_interleaved:
  assumes "wellFormed buffer"
  shows "(\<forall>i channel. i < bufLength buffer \<and> channel < numberOfChannels buffer \<longrightarrow>
            getInt16 (blobBytes (audioBufferToWav buffer))
              (44 + 2 * (i * numberOfChannels buffer + channel)) True
            = sint (ToInt16 (intSample (channelData buffer ! channel ! i))))
         \<and> (numberOfChannels buffer = 2 \<and> 2 \<le> bufLength buffer \<longrightarrow>
            getInt16 (blobBytes (audioBufferToWav buffer)) 44 True
              = sint (ToInt16 (intSample (channelData buffer ! 0 ! 0)))
          \<and> getInt16 (blobBytes (audioBufferToWav buffer)) 46 True
              = sint (ToInt16 (intSample (channelData buffer ! 1 ! 0)))
          \<and> getInt16 (blobBytes (audioBufferToWav buffer)) 48 True
              = sint (ToInt16 (intSample (channelData buffer ! 0 ! 1))))"
proof (intro conjI allI impI)
  fix i channel
  assume "i < bufLength buffer \<and> channel < numberOfChannels buffer"
  then show "getInt16 (blobBytes (audioBufferToWav buffer))
              (44 + 2 * (i * numberOfChannels buffer + channel)) True
            = sint (ToInt16 (intSample (channelData buffer ! channel ! i)))"
    using getInt16_sample [of i buffer channel] by (simp add: getChannelData_def)
next
  assume a: "numberOfChannels buffer = 2 \<and> 2 \<le> bufLength buffer"
  then show "getInt16 (blobBytes (audioBufferToWav buffer)) 44 True
              = sint (ToInt16 (intSample (channelData buffer ! 0 ! 0)))"
    using getInt16_sample [of 0 buffer 0] by (simp add: getChannelData_def)
  from a show "getInt16 (blobBytes (audioBufferToWav buffer)) 46 True
              = sint (ToInt16 (intSample (channelData buffer ! 1 ! 0)))"
    using getInt16_sample [of 0 buffer 1] by (simp add: getChannelData_def)
  from a show "getInt16 (blobBytes (audioBufferToWav buffer)) 48 True
              = sint (ToInt16 (intSample (channelData buffer ! 0 ! 1)))"
    using getInt16_sample [of 1 buffer 0] by (simp add: getChannelData_def)
qed

text \<open>The theorem at a 2-channel buffer of two frames.\<close>

theorem pcm_interleaved_witness:
  "wellFormed \<lparr>numberOfChannels = 2, sampleRate = 8000, bufLength = 2,
       channelData = [[Fin 1, Fin (- 1)], [Fin (1 / 2), Fin 0]]\<rparr>
   \<and> getInt16 (blobBytes (audioBufferToWav \<lparr>numberOfChannels = 2, sampleRate = 8000, bufLength = 2,
       channelData = [[Fin 1, Fin (- 1)], [Fin (1 / 2), Fin 0]]\<rparr>)) 44 True = 32767
   \<and> getInt16 (blobBytes (audioBufferToWav \<lparr>numberOfChannels = 2, sampleRate = 8000, bufLength = 2,
       channelData = [[Fin 1, Fin (- 1)], [Fin (1 / 2), Fin 0]]\<rparr>)) 46 True = 16383
   \<and> getInt16 (blobBytes (audioBufferToWav \<lparr>numberOfChannels = 2, sampleRate = 8000, bufLength = 2,
       channelData = [[Fin 1, Fin (- 1)], [Fin (1 / 2), Fin 0]]\<rparr>)) 48 True = - 32768"
proof -
  let ?b = "\<lparr>numberOfChannels = 2, sampleRate = 8000, bufLength = 2,
       channelData = [[Fin 1, Fin (- 1)], [Fin (1 / 2), Fin 0]]\<rparr>"
  have wf: "wellFormed ?b" by (simp add: wellFormed_def)
  from pcm_interleaved [OF wf] wf show ?thesis
    by (simp add: intSample_def clampedSample_def trunc_def rat_eval)
qed

section \<open>The chunker: \<open>processAndSplitAudio\<close>\<close>

text \<open>
  Decoding is the platform's: the model takes the decoded \<open>AudioBuffer\<close> as its input,
  next to the file (read for its name only) and the chunk duration. \<open>duration\<close> is the
  buffer's attribute of that name, the length divided by the sample rate in double
  precision; the sample rate of a decoded buffer is positive. The chunk duration is a
  finite number: the interface passes \<open>Number\<close> of the value of a numeric input field,
  which is never NaN nor an infinity, and is 0 when the field is empty.

  The values computed at lines 195 and 205 to 212. The chunk count is the one value
  where the range of a double matters: over a chunk duration of 0 it is \<open>Infinity\<close>
  (NaN when the total duration is 0 too), and over a tiny one the quotient overflows.
  The operations of the loop body are rounded with \<open>fl\<close>. Neither an overflow nor a
  subnormal result is in reach there when the chunk count is one the loop can finish: at
  an index below the count \<open>i * chunkDurationInSeconds\<close> is of the order of the total
  duration at most, and the chunk duration is at least the total duration over \<open>2^53\<close>.
\<close>

definition duration :: "AudioBuffer \<Rightarrow> rat" where
  "duration buffer = fl (of_nat (bufLength buffer) / of_nat (sampleRate buffer))"

definition totalChunks :: "rat \<Rightarrow> rat \<Rightarrow> number" where
  "totalChunks totalDuration chunkDurationInSeconds =
     Math_ceil (jsDivide totalDuration chunkDurationInSeconds)"

definition startTime :: "nat \<Rightarrow> rat \<Rightarrow> rat" where
  "startTime i chunkDurationInSeconds = fl (of_nat i * chunkDurationInSeconds)"

definition endTime :: "nat \<Rightarrow> rat \<Rightarrow> rat \<Rightarrow> rat" where
  "endTime i chunkDurationInSeconds totalDuration =
     min (fl (startTime i chunkDurationInSeconds + chunkDurationInSeconds)) totalDuration"

definition startOffset :: "nat \<Rightarrow> rat \<Rightarrow> nat \<Rightarrow> int" where
  "startOffset i chunkDurationInSeconds rate = \<lfloor>fl (startTime i chunkDurationInSeconds * of_nat rate)\<rfloor>"

definition endOffset :: "nat \<Rightarrow> rat \<Rightarrow> rat \<Rightarrow> nat \<Rightarrow> int" where
  "endOffset i chunkDurationInSeconds totalDuration rate =
     \<lfloor>fl (endTime i chunkDurationInSeconds totalDuration * of_nat rate)\<rfloor>"

text \<open>
  The string operations of lines 199, 233 and 236: \<open>String(n)\<close> of a non-negative
  integer (its decimal digits), the conversion of the chunk count in the template of the
  progress message (an integer, \<open>Infinity\<close> or \<open>NaN\<close>), \<open>padStart\<close>,
  \<open>lastIndexOf\<close>, \<open>substring\<close> (arguments clamped to the string, swapped when out of
  order), and the \<open>||\<close> that falls back to the whole name when the prefix is empty.
  Integers are written with all their digits, as JavaScript does below \<open>10^21\<close>; a
  loop counter stays below that.
\<close>

fun numberToString :: "nat \<Rightarrow> string" where
  "numberToString n =
     (if n < 10 then [''0123456789'' ! n]
      else numberToString (n div 10) @ [''0123456789'' ! (n mod 10)])"
declare numberToString.simps [simp del]

fun ToString :: "number \<Rightarrow> string" where
  "ToString (Fin x) =
     (if x < 0 then ''-'' @ numberToString (nat \<lfloor>- x\<rfloor>) else numberToString (nat \<lfloor>x\<rfloor>))"
| "ToString PosInf = ''Infinity''"
| "ToString NegInf = ''-Infinity''"
| "ToString NaN = ''NaN''"

definition padStart :: "string \<Rightarrow> nat \<Rightarrow> string \<Rightarrow> string" where
  "padStart str targetLength padString =
     (if targetLength \<le> length str \<or> padString = [] then str
      else take (targetLength - length str)
             (concat (replicate (targetLength - length str) padString)) @ str)"

definition lastIndexOf :: "string \<Rightarrow> char \<Rightarrow> int" where
  "lastIndexOf str c =
     (if c \<in> set str
      then int (length str - 1 - length (takeWhile (\<lambda>x. x \<noteq> c) (rev str)))
      else - 1)"

definition substring :: "string \<Rightarrow> int \<Rightarrow> int \<Rightarrow> string" where
  "substring str indexStart indexEnd =
     (let a = nat (max 0 (min indexStart (int (length str))));
          b = nat (max 0 (min indexEnd (int (length str))))
      in take (max a b - min a b) (drop (min a b) str))"

definition originalFileName :: "string \<Rightarrow> string" where
  "originalFileName fname =
     (let s = substring fname 0 (lastIndexOf fname CHR ''.'')
      in if s = [] then fname else s)"

definition chunkName :: "string \<Rightarrow> nat \<Rightarrow> string" where
  "chunkName fname chunkNumber =
     originalFileName fname @ ''_parte_'' @ padStart (numberToString chunkNumber) 2 ''0'' @ ''.wav''"

definition progressMessage :: "nat \<Rightarrow> number \<Rightarrow> string" where
  "progressMessage chunkNumber numChunks =
     ''Procesando trozo '' @ numberToString chunkNumber @ '' de '' @ ToString numChunks @ ''...''"

text \<open>
  \<open>createBuffer\<close> is the platform's and throws \<open>NotSupportedError\<close> when an argument
  is outside its nominal range; the channel count and the sample rate handed to it are
  those of a decoded buffer, so zero is the only such value in reach. The new buffer is
  silent. \<open>subarray\<close> and \<open>set\<close> are the typed array's: \<open>set\<close> overwrites a prefix
  of the target; its source here is never longer than the target.
\<close>

record chunk =
  name :: string
  blob :: blob

datatype error = NotSupportedError

definition createBuffer :: "nat \<Rightarrow> nat \<Rightarrow> nat \<Rightarrow> error + AudioBuffer" where
  "createBuffer channels frames rate =
     (if channels = 0 \<or> frames = 0 \<or> rate = 0 then Inl NotSupportedError
      else Inr \<lparr>numberOfChannels = channels, sampleRate = rate, bufLength = frames,
                channelData = replicate channels (replicate frames (Fin 0))\<rparr>)"

definition subarray :: "'a list \<Rightarrow> nat \<Rightarrow> nat \<Rightarrow> 'a list" where
  "subarray xs begin final =
     take (min final (length xs) - min begin (length xs)) (drop (min begin (length xs)) xs)"

definition typedArraySet :: "'a list \<Rightarrow> 'a list \<Rightarrow> 'a list" where
  "typedArraySet target source = source @ drop (length source) target"

definition copyChannels :: "AudioBuffer \<Rightarrow> AudioBuffer \<Rightarrow> nat \<Rightarrow> nat \<Rightarrow> AudioBuffer" where
  "copyChannels decodedBuffer chunkBuffer startOff endOff =
     fold (\<lambda>channel cb.
             cb\<lparr>channelData := (channelData cb)
                   [channel := typedArraySet (getChannelData cb channel)
                                 (subarray (getChannelData decodedBuffer channel) startOff endOff)]\<rparr>)
       [0..<numberOfChannels decodedBuffer] chunkBuffer"

text \<open>
  The body of the loop (lines 198 to 238), the loop and the function. The state is the
  list of progress messages reported so far and the chunks pushed so far; a thrown error
  ends the run and is the result. The two \<open>continue\<close> statements return the chunks
  unchanged. Yielding to the event loop and closing the audio context change neither.
  The parameter \<open>numChunks\<close> is the source's local \<open>totalChunks\<close>, whose name here is
  that of the function computing it.

  Nothing bounds the number of turns of the loop: the count is \<open>Infinity\<close> for a chunk
  duration of 0, and a counter cannot pass \<open>2^53\<close>. The loop is therefore a partial
  function, \<open>None\<close> standing for a run that does not return.
\<close>

definition processChunk ::
  "blob \<Rightarrow> AudioBuffer \<Rightarrow> rat \<Rightarrow> number \<Rightarrow> nat \<Rightarrow> string list \<times> chunk list
     \<Rightarrow> string list \<times> (error + chunk list)" where
  "processChunk file decodedBuffer chunkDurationInSeconds numChunks i =
     (\<lambda>(progress, chunks).
        let chunkNumber = increment i;
            progress = progress @ [progressMessage chunkNumber numChunks];
            totalDuration = duration decodedBuffer;
            rate = sampleRate decodedBuffer
        in if endTime i chunkDurationInSeconds totalDuration \<le> startTime i chunkDurationInSeconds
           then (progress, Inr chunks)
           else
             let startOff = startOffset i chunkDurationInSeconds rate;
                 endOff = endOffset i chunkDurationInSeconds totalDuration rate;
                 frameCount = endOff - startOff
             in if frameCount \<le> 0 then (progress, Inr chunks)
                else
                  (case createBuffer (numberOfChannels decodedBuffer) (nat frameCount) rate of
                     Inl e \<Rightarrow> (progress, Inl e)
                   | Inr chunkBuffer \<Rightarrow>
                       let filled = copyChannels decodedBuffer chunkBuffer (nat startOff) (nat endOff);
                           wavBlob = audioBufferToWav filled
                       in (progress,
                           Inr (chunks @ [\<lparr>name = chunkName (fileName file) chunkNumber,
                                            blob = wavBlob\<rparr>]))))"

partial_function (option) processLoop ::
  "blob \<Rightarrow> AudioBuffer \<Rightarrow> rat \<Rightarrow> number \<Rightarrow> nat \<Rightarrow> string list \<times> chunk list
     \<Rightarrow> (string list \<times> (error + chunk list)) option" where
  "processLoop file decodedBuffer chunkDurationInSeconds numChunks i state =
     (if jsLess (Fin (of_nat i)) numChunks
      then (case processChunk file decodedBuffer chunkDurationInSeconds numChunks i state of
              (progress, Inl e) \<Rightarrow> Some (progress, Inl e)
            | (progress, Inr chunks) \<Rightarrow>
                processLoop file decodedBuffer chunkDurationInSeconds numChunks (increment i)
                  (progress, chunks))
      else Some (fst state, Inr (snd state)))"

definition processAndSplitAudio ::
  "blob \<Rightarrow> AudioBuffer \<Rightarrow> rat \<Rightarrow> (string list \<times> (error + chunk list)) option" where
  "processAndSplitAudio file decodedBuffer chunkDurationInSeconds =
     (let progress = [''Decodificando el archivo...''];
          numChunks = totalChunks (duration decodedBuffer) chunkDurationInSeconds
      in processLoop file decodedBuffer chunkDurationInSeconds numChunks 0 (progress, []))"

section \<open>Properties of the chunker\<close>

text \<open>
  \<open>degenerate\<close> is the disjunction of the two guards before \<open>continue\<close>, and
  \<open>chunkAt\<close> the chunk that the body pushes at an index that passes both.
\<close>

definition degenerate :: "AudioBuffer \<Rightarrow> rat \<Rightarrow> nat \<Rightarrow> bool" where
  "degenerate decodedBuffer chunkDurationInSeconds i \<longleftrightarrow>
     endTime i chunkDurationInSeconds (duration decodedBuffer) \<le> startTime i chunkDurationInSeconds
     \<or> endOffset i chunkDurationInSeconds (duration decodedBuffer) (sampleRate decodedBuffer)
         - startOffset i chunkDurationInSeconds (sampleRate decodedBuffer) \<le> 0"

definition chunkAt :: "blob \<Rightarrow> AudioBuffer \<Rightarrow> rat \<Rightarrow> nat \<Rightarrow> chunk" where
  "chunkAt file decodedBuffer chunkDurationInSeconds i =
     (let startOff = startOffset i chunkDurationInSeconds (sampleRate decodedBuffer);
          endOff = endOffset i chunkDurationInSeconds (duration decodedBuffer) (sampleRate decodedBuffer)
      in \<lparr>name = chunkName (fileName file) (i + 1),
          blob = audioBufferToWav
                   (copyChannels decodedBuffer
                      \<lparr>numberOfChannels = numberOfChannels decodedBuffer,
                       sampleRate = sampleRate decodedBuffer,
                       bufLength = nat (endOff - startOff),
                       channelData = replicate (numberOfChannels decodedBuffer)
                                       (replicate (nat (endOff - startOff)) (Fin 0))\<rparr>
                      (nat startOff) (nat endOff))\<rparr>)"

lemma processChunk_degenerate:
  "degenerate b d i \<Longrightarrow> i < 2 ^ 53 \<Longrightarrow>
     processChunk file b d n i (progress, chunks)
       = (progress @ [progressMessage (i + 1) n], Inr chunks)"
  by (auto simp: processChunk_def degenerate_def Let_def increment_eq)

lemma processChunk_emits:
  "\<not> degenerate b d i \<Longrightarrow> i < 2 ^ 53 \<Longrightarrow> 0 < numberOfChannels b \<Longrightarrow> 0 < sampleRate b \<Longrightarrow>
     processChunk file b d n i (progress, chunks)
       = (progress @ [progressMessage (i + 1) n], Inr (chunks @ [chunkAt file b d i]))"
  by (auto simp: processChunk_def degenerate_def Let_def createBuffer_def chunkAt_def increment_eq)

text \<open>
  The run of the loop for a finite chunk count \<open>n\<close> that a counter can reach: it
  returns, having reported one message per index below \<open>n\<close> and pushed the chunks of
  the indices that are not degenerate.
\<close>

lemma processLoop_run:
  assumes "0 < numberOfChannels b" "0 < sampleRate b" "n \<le> 2 ^ 53"
  shows "processLoop file b d (Fin (of_int n)) i (progress, chunks)
           = Some (progress @ map (\<lambda>j. progressMessage (j + 1) (Fin (of_int n))) [i..<nat n],
                   Inr (chunks @ map (chunkAt file b d) (filter (\<lambda>j. \<not> degenerate b d j) [i..<nat n])))"
proof (induction "nat n - i" arbitrary: i progress chunks)
  case 0
  then have "\<not> int i < n" by simp
  moreover from 0 have "[i..<nat n] = []" by simp
  ultimately show ?case by (subst processLoop.simps) simp
next
  case (Suc k)
  then have lt: "int i < n" and k: "k = nat n - Suc i" by simp_all
  from lt assms(3) have "int i < 2 ^ 53" by simp
  then have small: "i < 2 ^ 53" by simp
  from lt have up: "[i..<nat n] = i # [Suc i..<nat n]" by (simp add: upt_conv_Cons)
  show ?case
  proof (cases "degenerate b d i")
    case True
    show ?thesis
      using lt Suc.hyps(1) [OF k] True small
      by (subst processLoop.simps) (simp add: processChunk_degenerate up increment_eq)
  next
    case False
    show ?thesis
      using lt Suc.hyps(1) [OF k] False assms(1,2) small
      by (subst processLoop.simps) (simp add: processChunk_emits up increment_eq)
  qed
qed

lemma processAndSplitAudio_run:
  assumes "0 < numberOfChannels b" "0 < sampleRate b"
    and "totalChunks (duration b) d = Fin (of_int n)" "n \<le> 2 ^ 53"
  shows "processAndSplitAudio file b d
           = Some (''Decodificando el archivo...''
                     # map (\<lambda>j. progressMessage (j + 1) (Fin (of_int n))) [0..<nat n],
                   Inr (map (chunkAt file b d) (filter (\<lambda>j. \<not> degenerate b d j) [0..<nat n])))"
  using processLoop_run [OF assms(1,2,4), of "file" d 0 "[''Decodificando el archivo...'']" "[]"]
  by (simp add: processAndSplitAudio_def Let_def assms(3))

text \<open>
  At a chunk duration of 0 and a positive total duration the count is \<open>Infinity\<close>,
  every window is \<open>[0, 0]\<close> and is skipped, and the run does not return.
\<close>

lemma processChunk_skip:
  "degenerate b d i \<Longrightarrow>
     processChunk file b d n i (progress, chunks)
       = (progress @ [progressMessage (increment i) n], Inr chunks)"
  by (auto simp: processChunk_def degenerate_def Let_def)

lemma zero_window: "0 \<le> duration b \<Longrightarrow> degenerate b 0 i"
  by (simp add: degenerate_def endTime_def startTime_def fl_def)

lemma processLoop_never_returns:
  assumes "processLoop f b d numChunks i state = Some r"
  shows "d = 0 \<and> numChunks = PosInf \<and> 0 \<le> duration b \<longrightarrow> False"
proof (rule processLoop.raw_induct
    [where P = "\<lambda>f b d numChunks i state r. d = 0 \<and> numChunks = PosInf \<and> 0 \<le> duration b \<longrightarrow> False",
     OF _ assms])
  fix loop :: "blob \<Rightarrow> AudioBuffer \<Rightarrow> rat \<Rightarrow> number \<Rightarrow> nat \<Rightarrow> string list \<times> chunk list
     \<Rightarrow> (string list \<times> (error + chunk list)) option"
  fix f b d numChunks i state r
  assume IH: "\<And>f b d numChunks i state r. loop f b d numChunks i state = Some r \<Longrightarrow>
                 d = 0 \<and> numChunks = PosInf \<and> 0 \<le> duration b \<longrightarrow> False"
  assume body: "(if jsLess (Fin (of_nat i)) numChunks
      then (case processChunk f b d numChunks i state of
              (progress, Inl e) \<Rightarrow> Some (progress, Inl e)
            | (progress, Inr chunks) \<Rightarrow> loop f b d numChunks (increment i) (progress, chunks))
      else Some (fst state, Inr (snd state))) = Some r"
  show "d = 0 \<and> numChunks = PosInf \<and> 0 \<le> duration b \<longrightarrow> False"
  proof
    assume a: "d = 0 \<and> numChunks = PosInf \<and> 0 \<le> duration b"
    obtain progress chunks where st: "state = (progress, chunks)" by (cases state)
    have "processChunk f b 0 PosInf i (progress, chunks)
            = (progress @ [progressMessage (increment i) PosInf], Inr chunks)"
      using a by (intro processChunk_skip zero_window) simp
    with body a st
    have "loop f b d numChunks (increment i) (progress @ [progressMessage (increment i) PosInf], chunks)
            = Some r"
      by simp
    from IH [OF this] a show False by blast
  qed
qed

lemma zero_chunk_duration_never_returns:
  assumes "0 < duration b"
  shows "processAndSplitAudio file b 0 = None"
proof (rule ccontr)
  assume "processAndSplitAudio file b 0 \<noteq> None"
  then obtain r where r: "processAndSplitAudio file b 0 = Some r" by auto
  have "totalChunks (duration b) 0 = PosInf"
    using assms by (simp add: totalChunks_def jsDivide_def)
  with r have "processLoop file b 0 PosInf 0 ([''Decodificando el archivo...''], []) = Some r"
    by (simp add: processAndSplitAudio_def)
  from processLoop_never_returns [OF this] assms show False by simp
qed

text \<open>
  The copy loop of lines 224 to 228 fills every channel of the chunk buffer with the
  window's samples.
\<close>

lemma fold_update_channels:
  "k \<le> length (channelData cb) \<Longrightarrow>
     fold (\<lambda>channel cb. cb\<lparr>channelData := (channelData cb)[channel := f channel (channelData cb ! channel)]\<rparr>)
       [0..<k] cb
     = cb\<lparr>channelData := map (\<lambda>channel. f channel (channelData cb ! channel)) [0..<k]
                               @ drop k (channelData cb)\<rparr>"
proof (induction k)
  case 0
  show ?case by simp
next
  case (Suc k)
  let ?A = "map (\<lambda>channel. f channel (channelData cb ! channel)) [0..<k]"
  from Suc.prems have k: "k < length (channelData cb)" by simp
  then have d: "drop k (channelData cb) = channelData cb ! k # drop (Suc k) (channelData cb)"
    by (simp add: Cons_nth_drop_Suc)
  have "(?A @ drop k (channelData cb)) ! k = channelData cb ! k"
    using k by (simp add: nth_append)
  moreover have "(?A @ drop k (channelData cb))[k := v]
                   = ?A @ v # drop (Suc k) (channelData cb)" for v
    by (simp add: list_update_append d)
  ultimately show ?case
    using Suc.IH k by simp
qed

lemma copyChannels_data:
  assumes "length (channelData b) = numberOfChannels b"
  shows "copyChannels b \<lparr>numberOfChannels = c, sampleRate = r, bufLength = n,
                           channelData = replicate (numberOfChannels b) (replicate n z)\<rparr> startOff endOff
         = \<lparr>numberOfChannels = c, sampleRate = r, bufLength = n,
            channelData = map (\<lambda>ch. typedArraySet (replicate n z) (subarray ch startOff endOff))
                              (channelData b)\<rparr>"
proof -
  let ?cb = "\<lparr>numberOfChannels = c, sampleRate = r, bufLength = n,
              channelData = replicate (numberOfChannels b) (replicate n z)\<rparr>"
  have "map (\<lambda>channel. typedArraySet (channelData ?cb ! channel)
               (subarray (getChannelData b channel) startOff endOff)) [0..<numberOfChannels b]
        = map (\<lambda>channel. typedArraySet (replicate n z) (subarray (channelData b ! channel) startOff endOff))
            [0..<length (channelData b)]"
    using assms by (simp add: getChannelData_def)
  also have "\<dots> = map (\<lambda>ch. typedArraySet (replicate n z) (subarray ch startOff endOff)) (channelData b)"
    by (rule nth_equalityI) simp_all
  finally show ?thesis
    unfolding copyChannels_def getChannelData_def
    using fold_update_channels [of "numberOfChannels b" ?cb
        "\<lambda>channel x. typedArraySet x (subarray (channelData b ! channel) startOff endOff)"]
    by (simp add: getChannelData_def)
qed

lemma window_samples:
  "startOff \<le> endOff \<Longrightarrow> endOff \<le> length ch \<Longrightarrow>
     typedArraySet (replicate (endOff - startOff) z) (subarray ch startOff endOff)
       = take (endOff - startOff) (drop startOff ch)"
  by (simp add: typedArraySet_def subarray_def min_def)

lemma chunkAt_wellFormed:
  assumes "wellFormed b"
    and "0 \<le> startOffset i d (sampleRate b)"
    and "startOffset i d (sampleRate b) \<le> endOffset i d (duration b) (sampleRate b)"
    and "endOffset i d (duration b) (sampleRate b) \<le> int (bufLength b)"
  shows "chunkAt file b d i =
     \<lparr>name = chunkName (fileName file) (i + 1),
      blob = audioBufferToWav
        \<lparr>numberOfChannels = numberOfChannels b, sampleRate = sampleRate b,
         bufLength = nat (endOffset i d (duration b) (sampleRate b)) - nat (startOffset i d (sampleRate b)),
         channelData =
           map (\<lambda>ch. take (nat (endOffset i d (duration b) (sampleRate b)) - nat (startOffset i d (sampleRate b)))
                        (drop (nat (startOffset i d (sampleRate b))) ch))
             (channelData b)\<rparr>\<rparr>"
proof -
  let ?s = "startOffset i d (sampleRate b)" and ?e = "endOffset i d (duration b) (sampleRate b)"
  have n: "nat (?e - ?s) = nat ?e - nat ?s" using assms(2,3) by simp
  have len: "length (channelData b) = numberOfChannels b"
    and each: "\<And>ch. ch \<in> set (channelData b) \<Longrightarrow> length ch = bufLength b"
    using assms(1) by (simp_all add: wellFormed_def)
  have m: "map (\<lambda>ch. typedArraySet (replicate (nat ?e - nat ?s) (Fin 0)) (subarray ch (nat ?s) (nat ?e)))
          (channelData b)
        = map (\<lambda>ch. take (nat ?e - nat ?s) (drop (nat ?s) ch)) (channelData b)"
  proof (rule map_cong [OF refl])
    fix ch assume "ch \<in> set (channelData b)"
    then have "nat ?e \<le> length ch" using each assms(2,3,4) by simp
    moreover have "nat ?s \<le> nat ?e" using assms(3) by simp
    ultimately show "typedArraySet (replicate (nat ?e - nat ?s) (Fin 0)) (subarray ch (nat ?s) (nat ?e))
                       = take (nat ?e - nat ?s) (drop (nat ?s) ch)"
      by (rule window_samples [rotated])
  qed
  show ?thesis
    by (simp only: chunkAt_def Let_def n copyChannels_data [OF len] m)
qed

lemmas window_eval = startTime_def endTime_def startOffset_def endOffset_def totalChunks_def
  jsDivide_def roundDouble_def fl_eval

lemma chunkName_one_digit:
  "n < 10 \<Longrightarrow>
     chunkName fname n = originalFileName fname @ ''_parte_0'' @ [''0123456789'' ! n] @ ''.wav''"
  by (simp add: chunkName_def padStart_def numberToString.simps)

text \<open>
  With a whole number of seconds per chunk and products below \<open>2^53\<close>, the boundaries
  of a window that ends inside the audio are computed exactly.
\<close>

lemma whole_second_window:
  fixes d r i :: nat and T :: rat
  assumes "Suc i * d * r < 2 ^ 53" "0 < r" "of_nat (Suc i * d) \<le> T"
  shows "startTime i (of_nat d) = of_nat (i * d)"
    and "endTime i (of_nat d) T = of_nat (Suc i * d)"
    and "startOffset i (of_nat d) r = int (i * d * r)"
    and "endOffset i (of_nat d) T r = int (Suc i * d * r)"
proof -
  have "Suc i * d * 1 \<le> Suc i * d * r" using assms(2) by (intro mult_le_mono2) simp
  then have "Suc i * d \<le> Suc i * d * r" by (simp only: mult_1_right)
  then have a: "Suc i * d < 2 ^ 53" using assms(1) by (rule le_less_trans)
  have "i * d \<le> Suc i * d" by simp
  then have b: "i * d < 2 ^ 53" using a by (rule le_less_trans)
  have "i * d * r \<le> Suc i * d * r" by simp
  then have c: "i * d * r < 2 ^ 53" using assms(1) by (rule le_less_trans)
  show st: "startTime i (of_nat d) = of_nat (i * d)"
    using fl_of_nat [OF b] by (simp add: startTime_def)
  have "fl (of_nat (i * d) + of_nat d) = of_nat (Suc i * d)"
    using fl_of_nat [OF a] by (simp add: add.commute)
  then show et: "endTime i (of_nat d) T = of_nat (Suc i * d)"
    using assms(3) by (simp add: endTime_def st min_def)
  have "startTime i (of_nat d) * of_nat r = (of_nat (i * d * r) :: rat)"
    by (simp add: st)
  then have "fl (startTime i (of_nat d) * of_nat r) = of_nat (i * d * r)"
    using fl_of_nat [OF c] by (simp only:)
  then show "startOffset i (of_nat d) r = int (i * d * r)"
    unfolding startOffset_def by (simp only: floor_of_nat)
  have "endTime i (of_nat d) T * of_nat r = (of_nat (Suc i * d * r) :: rat)"
    by (simp add: et)
  then have "fl (endTime i (of_nat d) T * of_nat r) = of_nat (Suc i * d * r)"
    using fl_of_nat [OF assms(1)] by (simp only:)
  then show "endOffset i (of_nat d) T r = int (Suc i * d * r)"
    unfolding endOffset_def by (simp only: floor_of_nat)
qed

lemma whole_second_window_emits:
  fixes d i :: nat
  assumes "Suc i * d * sampleRate b < 2 ^ 53" "0 < sampleRate b" "0 < d"
    "of_nat (Suc i * d) \<le> duration b"
  shows "\<not> degenerate b (of_nat d) i"
  using whole_second_window [OF assms(1,2,4)] assms(2,3)
  by (simp add: degenerate_def)

lemma hundred_windows:
  assumes "sampleRate b = 8000" "bufLength b = 8000000"
  shows "totalChunks (duration b) 10 = Fin 100"
    and "filter (\<lambda>j. \<not> degenerate b 10 j) [0..<100] = [0..<100]"
proof -
  have dur: "duration b = 1000"
    using assms by (simp add: duration_def fl_eval)
  show "totalChunks (duration b) 10 = Fin 100"
    unfolding dur by (simp add: window_eval)
  have "\<not> degenerate b (of_nat 10) j" if "j < 100" for j
  proof (rule whole_second_window_emits)
    from that have "Suc j * 10 * 8000 \<le> 100 * 10 * 8000" by simp
    then show "Suc j * 10 * sampleRate b < 2 ^ 53" by (simp add: assms)
    show "0 < sampleRate b" by (simp add: assms)
    show "(0::nat) < 10" by simp
    from that have "Suc j * 10 \<le> 1000" by simp
    then have "(of_nat (Suc j * 10) :: rat) \<le> of_nat 1000" by (simp only: of_nat_le_iff)
    then show "of_nat (Suc j * 10) \<le> duration b" by (simp add: dur)
  qed
  then have "\<forall>j \<in> set [0..<100]. \<not> degenerate b 10 j" by simp
  then show "filter (\<lambda>j. \<not> degenerate b 10 j) [0..<100] = [0..<100]"
    by (simp only: filter_True)
qed

lemma ten_second_windows:
  assumes "sampleRate b = 8000" "bufLength b = 80000"
  shows "totalChunks (duration b) 3 = Fin 4"
    and "filter (\<lambda>j. \<not> degenerate b 3 j) [0..<4] = [0, 1, 2, 3]"
proof -
  have dur: "duration b = 10"
    using assms by (simp add: duration_def fl_eval)
  show "totalChunks (duration b) 3 = Fin 4"
    unfolding dur by (simp add: window_eval)
  have nd: "\<not> degenerate b 3 0" "\<not> degenerate b 3 1" "\<not> degenerate b 3 2" "\<not> degenerate b 3 3"
    by (simp_all add: degenerate_def dur assms(1) window_eval)
  have up: "[0..<4] = [0, 1, 2, 3::nat]"
    by (simp add: eval_nat_numeral)
  show "filter (\<lambda>j. \<not> degenerate b 3 j) [0..<4] = [0, 1, 2, 3]"
    unfolding up using nd by simp
qed

text \<open>
  Claim C5. Chunking a 10-second mono 8000 Hz input with a chunk duration of 3 seconds
  runs \<open>ceil(10/3) = 4\<close> windows and yields exactly 4 chunks, of 24000, 24000, 24000
  and 8000 frames, named \<open><base>_parte_01.wav\<close> to \<open><base>_parte_04.wav\<close>; each chunk
  is the encoding of its window of the input. The run returns, having reported the
  decoding message and one message per window.
\<close>

theorem ten_second_mono_chunks:
  assumes "wellFormed b" "numberOfChannels b = 1" "sampleRate b = 8000" "bufLength b = 80000"
  shows "totalChunks (duration b) 3 = Fin (of_int \<lceil>10 / 3 :: rat\<rceil>)
    \<and> processAndSplitAudio file b 3 = Some
     ([''Decodificando el archivo...'', ''Procesando trozo 1 de 4...'',
       ''Procesando trozo 2 de 4...'', ''Procesando trozo 3 de 4...'',
       ''Procesando trozo 4 de 4...''],
      Inr
      [\<lparr>name = originalFileName (fileName file) @ ''_parte_01.wav'',
        blob = audioBufferToWav \<lparr>numberOfChannels = 1, sampleRate = 8000, bufLength = 24000,
                 channelData = map (\<lambda>ch. take 24000 (drop 0 ch)) (channelData b)\<rparr>\<rparr>,
       \<lparr>name = originalFileName (fileName file) @ ''_parte_02.wav'',
        blob = audioBufferToWav \<lparr>numberOfChannels = 1, sampleRate = 8000, bufLength = 24000,
                 channelData = map (\<lambda>ch. take 24000 (drop 24000 ch)) (channelData b)\<rparr>\<rparr>,
       \<lparr>name = originalFileName (fileName file) @ ''_parte_03.wav'',
        blob = audioBufferToWav \<lparr>numberOfChannels = 1, sampleRate = 8000, bufLength = 24000,
                 channelData = map (\<lambda>ch. take 24000 (drop 48000 ch)) (channelData b)\<rparr>\<rparr>,
       \<lparr>name = originalFileName (fileName file) @ ''_parte_04.wav'',
        blob = audioBufferToWav \<lparr>numberOfChannels = 1, sampleRate = 8000, bufLength = 8000,
                 channelData = map (\<lambda>ch. take 8000 (drop 72000 ch)) (channelData b)\<rparr>\<rparr>])"
proof -
  have dur: "duration b = 10"
    using assms(3,4) by (simp add: duration_def fl_eval)
  have n: "totalChunks (duration b) 3 = Fin (of_int 4)"
    unfolding dur by (simp add: window_eval)
  have s: "startOffset 0 3 8000 = 0" "startOffset (Suc 0) 3 8000 = 24000"
          "startOffset 2 3 8000 = 48000" "startOffset 3 3 8000 = 72000"
    by (simp_all add: window_eval)
  have e: "endOffset 0 3 10 8000 = 24000" "endOffset (Suc 0) 3 10 8000 = 48000"
          "endOffset 2 3 10 8000 = 72000" "endOffset 3 3 10 8000 = 80000"
    by (simp_all add: window_eval)
  have nd: "\<not> degenerate b 3 0" "\<not> degenerate b 3 1" "\<not> degenerate b 3 2" "\<not> degenerate b 3 3"
    by (simp_all add: degenerate_def dur assms(3) window_eval)
  have up: "[0..<4] = [0, 1, 2, 3::nat]"
    by (simp add: eval_nat_numeral)
  have c0: "chunkAt file b 3 0 = \<lparr>name = originalFileName (fileName file) @ ''_parte_01.wav'',
        blob = audioBufferToWav \<lparr>numberOfChannels = 1, sampleRate = 8000, bufLength = 24000,
                 channelData = map (\<lambda>ch. take 24000 (drop 0 ch)) (channelData b)\<rparr>\<rparr>"
    using chunkAt_wellFormed [OF assms(1), of 0 3 "file"]
    by (simp add: dur assms(2,3,4) s e chunkName_one_digit)
  have c1: "chunkAt file b 3 1 = \<lparr>name = originalFileName (fileName file) @ ''_parte_02.wav'',
        blob = audioBufferToWav \<lparr>numberOfChannels = 1, sampleRate = 8000, bufLength = 24000,
                 channelData = map (\<lambda>ch. take 24000 (drop 24000 ch)) (channelData b)\<rparr>\<rparr>"
    using chunkAt_wellFormed [OF assms(1), of 1 3 "file"]
    by (simp add: dur assms(2,3,4) s e chunkName_one_digit)
  have c2: "chunkAt file b 3 2 = \<lparr>name = originalFileName (fileName file) @ ''_parte_03.wav'',
        blob = audioBufferToWav \<lparr>numberOfChannels = 1, sampleRate = 8000, bufLength = 24000,
                 channelData = map (\<lambda>ch. take 24000 (drop 48000 ch)) (channelData b)\<rparr>\<rparr>"
    using chunkAt_wellFormed [OF assms(1), of 2 3 "file"]
    by (simp add: dur assms(2,3,4) s e chunkName_one_digit)
  have c3: "chunkAt file b 3 3 = \<lparr>name = originalFileName (fileName file) @ ''_parte_04.wav'',
        blob = audioBufferToWav \<lparr>numberOfChannels = 1, sampleRate = 8000, bufLength = 8000,
                 channelData = map (\<lambda>ch. take 8000 (drop 72000 ch)) (channelData b)\<rparr>\<rparr>"
    using chunkAt_wellFormed [OF assms(1), of 3 3 "file"]
    by (simp add: dur assms(2,3,4) s e chunkName_one_digit)
  have msgs: "map (\<lambda>j. progressMessage (j + 1) (Fin (of_int 4))) [0, 1, 2, 3]
                = [''Procesando trozo 1 de 4...'', ''Procesando trozo 2 de 4...'',
                   ''Procesando trozo 3 de 4...'', ''Procesando trozo 4 de 4...'']"
    by (simp add: progressMessage_def numberToString.simps)
  have pos: "0 < numberOfChannels b" "0 < sampleRate b"
    by (simp_all add: assms(2,3))
  have "processAndSplitAudio file b 3
          = Some (''Decodificando el archivo...''
                    # map (\<lambda>j. progressMessage (j + 1) (Fin (of_int 4))) [0..<nat 4],
                  Inr (map (chunkAt file b 3) (filter (\<lambda>j. \<not> degenerate b 3 j) [0..<nat 4])))"
    using pos n by (rule processAndSplitAudio_run) simp
  then have "processAndSplitAudio file b 3
          = Some (''Decodificando el archivo...''
                    # map (\<lambda>j. progressMessage (j + 1) (Fin (of_int 4))) [0, 1, 2, 3],
                  Inr [chunkAt file b 3 0, chunkAt file b 3 1, chunkAt file b 3 2, chunkAt file b 3 3])"
    using nd by (simp add: up)
  moreover have "\<lceil>10 / 3 :: rat\<rceil> = 4" by (simp add: rat_eval)
  ultimately show ?thesis
    by (simp only: n msgs c0 c1 c2 c3 simp_thms)
qed

lemmas name_eval = originalFileName_def lastIndexOf_def substring_def Let_def

text \<open>The theorem at ten seconds of silence in a file named \<open>entrevista.mp3\<close>.\<close>

theorem ten_second_mono_chunks_witness:
  "wellFormed \<lparr>numberOfChannels = 1, sampleRate = 8000, bufLength = 80000,
                channelData = [replicate 80000 (Fin 0)]\<rparr>
   \<and> processAndSplitAudio (File [] ''audio/mpeg'' ''entrevista.mp3'')
          \<lparr>numberOfChannels = 1, sampleRate = 8000, bufLength = 80000,
           channelData = [replicate 80000 (Fin 0)]\<rparr> 3 = Some
     ([''Decodificando el archivo...'', ''Procesando trozo 1 de 4...'',
       ''Procesando trozo 2 de 4...'', ''Procesando trozo 3 de 4...'',
       ''Procesando trozo 4 de 4...''],
      Inr
      [\<lparr>name = ''entrevista_parte_01.wav'',
        blob = audioBufferToWav \<lparr>numberOfChannels = 1, sampleRate = 8000, bufLength = 24000,
                 channelData = [replicate 24000 (Fin 0)]\<rparr>\<rparr>,
       \<lparr>name = ''entrevista_parte_02.wav'',
        blob = audioBufferToWav \<lparr>numberOfChannels = 1, sampleRate = 8000, bufLength = 24000,
                 channelData = [replicate 24000 (Fin 0)]\<rparr>\<rparr>,
       \<lparr>name = ''entrevista_parte_03.wav'',
        blob = audioBufferToWav \<lparr>numberOfChannels = 1, sampleRate = 8000, bufLength = 24000,
                 channelData = [replicate 24000 (Fin 0)]\<rparr>\<rparr>,
       \<lparr>name = ''entrevista_parte_04.wav'',
        blob = audioBufferToWav \<lparr>numberOfChannels = 1, sampleRate = 8000, bufLength = 8000,
                 channelData = [replicate 8000 (Fin 0)]\<rparr>\<rparr>])"
proof -
  let ?b = "\<lparr>numberOfChannels = 1, sampleRate = 8000, bufLength = 80000,
             channelData = [replicate 80000 (Fin 0)]\<rparr>"
  have wf: "wellFormed ?b" by (simp add: wellFormed_def)
  have nm: "originalFileName ''entrevista.mp3'' = ''entrevista''"
    by (simp add: name_eval)
  from ten_second_mono_chunks [OF wf, of "File [] ''audio/mpeg'' ''entrevista.mp3''"] wf nm
  show ?thesis by simp
qed

text \<open>
  Claim C1 says that the emitted windows cover \<open>[0, L)\<close> contiguously, the last one
  ending at \<open>L\<close>. The code computes the last boundary as
  \<open>floor(duration * sampleRate)\<close> with \<open>duration = L / sampleRate\<close> rounded, and the
  product can fall just below \<open>L\<close>. For a mono 44100 Hz buffer of 15 frames and the
  default chunk duration of 180 seconds, \<open>15 / 44100 * 44100\<close> is
  \<open>14.999999999999998\<close>: the run returns a single chunk, which holds the frames 0 to
  13, and the last frame, here the only one that is not silent, is in no chunk.
\<close>

theorem last_frame_dropped:
  "processAndSplitAudio (File [] ''audio/mpeg'' ''a.mp3'')
          \<lparr>numberOfChannels = 1, sampleRate = 44100, bufLength = 15,
           channelData = [replicate 14 (Fin 0) @ [Fin 1]]\<rparr> 180
     = Some ([''Decodificando el archivo...'', ''Procesando trozo 1 de 1...''],
             Inr [\<lparr>name = ''a_parte_01.wav'',
                   blob = audioBufferToWav \<lparr>numberOfChannels = 1, sampleRate = 44100, bufLength = 14,
                            channelData = [replicate 14 (Fin 0)]\<rparr>\<rparr>])"
proof -
  define b where "b = \<lparr>numberOfChannels = 1, sampleRate = 44100, bufLength = 15,
             channelData = [replicate 14 (Fin 0) @ [Fin 1]]\<rparr>"
  define f where "f = File [] ''audio/mpeg'' ''a.mp3''"
  have fields: "numberOfChannels b = 1" "sampleRate b = 44100" "bufLength b = 15"
    "channelData b = [replicate 14 (Fin 0) @ [Fin 1]]"
    by (simp_all add: b_def)
  have wf: "wellFormed b" by (simp add: wellFormed_def fields)
  have dur: "duration b = 6274402746159711 / 18446744073709551616"
    by (simp add: duration_def fields fl_eval)
  have n: "totalChunks (duration b) 180 = Fin (of_int 1)"
    unfolding dur by (simp add: window_eval)
  have s: "startOffset 0 180 (sampleRate b) = 0"
    by (simp add: window_eval)
  have e: "endOffset 0 180 (duration b) (sampleRate b) = 14"
    unfolding dur fields by (simp add: window_eval)
  have t: "startTime 0 180 < endTime 0 180 (duration b)"
    unfolding dur by (simp add: window_eval)
  have nd: "\<not> degenerate b 180 0"
    using t by (simp add: degenerate_def s e)
  have nm: "chunkName (fileName f) (0 + 1) = ''a_parte_01.wav''"
    by (simp add: f_def chunkName_one_digit name_eval)
  have c: "chunkAt f b 180 0 = \<lparr>name = ''a_parte_01.wav'',
             blob = audioBufferToWav \<lparr>numberOfChannels = 1, sampleRate = 44100, bufLength = 14,
                      channelData = [replicate 14 (Fin 0)]\<rparr>\<rparr>"
    using chunkAt_wellFormed [OF wf, of 0 180 f] unfolding nm s e
    by (simp add: fields)
  have m: "progressMessage (0 + 1) (Fin (of_int 1)) = ''Procesando trozo 1 de 1...''"
    by (simp add: progressMessage_def numberToString.simps)
  have pos: "0 < numberOfChannels b" "0 < sampleRate b"
    by (simp_all add: fields)
  have "processAndSplitAudio f b 180
          = Some (''Decodificando el archivo...''
                    # map (\<lambda>j. progressMessage (j + 1) (Fin (of_int 1))) [0..<nat 1],
                  Inr (map (chunkAt f b 180) (filter (\<lambda>j. \<not> degenerate b 180 j) [0..<nat 1])))"
    using pos n by (rule processAndSplitAudio_run) simp
  then have "processAndSplitAudio f b 180
          = Some ([''Decodificando el archivo...'', progressMessage (0 + 1) (Fin (of_int 1))],
                  Inr [chunkAt f b 180 0])"
    using nd by simp
  then have "processAndSplitAudio f b 180
     = Some ([''Decodificando el archivo...'', ''Procesando trozo 1 de 1...''],
             Inr [\<lparr>name = ''a_parte_01.wav'',
                   blob = audioBufferToWav \<lparr>numberOfChannels = 1, sampleRate = 44100, bufLength = 14,
                            channelData = [replicate 14 (Fin 0)]\<rparr>\<rparr>])"
    by (simp only: c m)
  then show ?thesis
    unfolding b_def f_def .
qed

text \<open>
  The same rounding at a length of five minutes and seven frames at 48000 Hz, cut every
  180 seconds: the second and last window ends at frame 14400006 of 14400007.
\<close>

lemma five_minute_last_window:
  "totalChunks (fl (14400007 / 48000)) 180 = Fin 2
   \<and> startOffset 1 180 48000 = 8640000
   \<and> endOffset 1 180 (fl (14400007 / 48000)) 48000 = 14400006"
  by (simp add: window_eval)

text \<open>
  Claim C6, as amended. For every decoded buffer, every chunk duration whose chunk count
  is a finite \<open>n\<close> that the loop counter can reach (at most \<open>2^53\<close>), and every loop
  index below \<open>n\<close> whose window is degenerate (the end time does not exceed the start
  time, or the frame count is not positive), the body of the loop raises no error and
  pushes no chunk, and it does report the progress message of that index, as it does for
  every index; the run as a whole returns and succeeds, its chunks being those of the
  indices that are not degenerate.
\<close>

theorem degenerate_window_skipped:
  assumes "0 < numberOfChannels b" "0 < sampleRate b"
    and "totalChunks (duration b) d = Fin (of_int n)" "n \<le> 2 ^ 53"
    and "int i < n"
    and "endTime i d (duration b) \<le> startTime i d
         \<or> endOffset i d (duration b) (sampleRate b) - startOffset i d (sampleRate b) \<le> 0"
  shows "processChunk file b d (totalChunks (duration b) d) i (progress, chunks)
           = (progress @ [progressMessage (i + 1) (totalChunks (duration b) d)], Inr chunks)
    \<and> processAndSplitAudio file b d
          = Some (''Decodificando el archivo...''
                    # map (\<lambda>j. progressMessage (j + 1) (totalChunks (duration b) d)) [0..<nat n],
                  Inr (map (chunkAt file b d) (filter (\<lambda>j. \<not> degenerate b d j) [0..<nat n])))
    \<and> progressMessage (i + 1) (totalChunks (duration b) d)
          \<in> set (map (\<lambda>j. progressMessage (j + 1) (totalChunks (duration b) d)) [0..<nat n])
    \<and> i \<notin> set (filter (\<lambda>j. \<not> degenerate b d j) [0..<nat n])"
proof -
  have deg: "degenerate b d i" using assms(6) by (simp add: degenerate_def)
  from assms(4,5) have "int i < 2 ^ 53" by simp
  then have small: "i < 2 ^ 53" by simp
  have "i \<in> set [0..<nat n]" using assms(5) by simp
  then have "progressMessage (i + 1) (totalChunks (duration b) d)
               \<in> (\<lambda>j. progressMessage (j + 1) (totalChunks (duration b) d)) ` set [0..<nat n]"
    by (rule imageI)
  then have msg: "progressMessage (i + 1) (totalChunks (duration b) d)
          \<in> set (map (\<lambda>j. progressMessage (j + 1) (totalChunks (duration b) d)) [0..<nat n])"
    by simp
  have run: "processAndSplitAudio file b d
          = Some (''Decodificando el archivo...''
                    # map (\<lambda>j. progressMessage (j + 1) (totalChunks (duration b) d)) [0..<nat n],
                  Inr (map (chunkAt file b d) (filter (\<lambda>j. \<not> degenerate b d j) [0..<nat n])))"
    using processAndSplitAudio_run [OF assms(1,2,3,4), of "file"] by (simp only: assms(3))
  have body: "processChunk file b d (totalChunks (duration b) d) i (progress, chunks)
           = (progress @ [progressMessage (i + 1) (totalChunks (duration b) d)], Inr chunks)"
    using deg small by (rule processChunk_degenerate)
  have "i \<notin> set (filter (\<lambda>j. \<not> degenerate b d j) [0..<nat n])"
    using deg by simp
  with body run msg show ?thesis by (intro conjI)
qed

text \<open>
  The theorem at a mono 8000 Hz buffer of 8001 frames cut into chunks of one second:
  the second window is \<open>[8000, 8000)\<close>, since \<open>8001 / 8000 * 8000\<close> is computed as
  \<open>8000.999999999999\<close>; it is reported and skipped.
\<close>

theorem degenerate_window_skipped_witness:
  "endOffset 1 1 (duration \<lparr>numberOfChannels = 1, sampleRate = 8000, bufLength = 8001,
                              channelData = [replicate 8001 (Fin 0)]\<rparr>) 8000
     - startOffset 1 1 8000 \<le> 0
   \<and> processAndSplitAudio (File [] ''audio/mpeg'' ''a.mp3'')
          \<lparr>numberOfChannels = 1, sampleRate = 8000, bufLength = 8001,
           channelData = [replicate 8001 (Fin 0)]\<rparr> 1
       = Some ([''Decodificando el archivo...'', ''Procesando trozo 1 de 2...'',
                ''Procesando trozo 2 de 2...''],
               Inr [\<lparr>name = ''a_parte_01.wav'',
                     blob = audioBufferToWav \<lparr>numberOfChannels = 1, sampleRate = 8000, bufLength = 8000,
                              channelData = [replicate 8000 (Fin 0)]\<rparr>\<rparr>])"
proof -
  define b where "b = \<lparr>numberOfChannels = 1, sampleRate = 8000, bufLength = 8001,
             channelData = [replicate 8001 (Fin 0)]\<rparr>"
  define f where "f = File [] ''audio/mpeg'' ''a.mp3''"
  have fields: "numberOfChannels b = 1" "sampleRate b = 8000" "bufLength b = 8001"
    "channelData b = [replicate 8001 (Fin 0)]"
    by (simp_all add: b_def)
  have wf: "wellFormed b" by (simp add: wellFormed_def fields)
  have dur: "duration b = fl (8001 / 8000)"
    by (simp add: duration_def fields)
  have n: "totalChunks (duration b) 1 = Fin (of_int 2)"
    unfolding dur by (simp add: window_eval)
  have w0: "startOffset 0 1 (sampleRate b) = 0" "endOffset 0 1 (duration b) (sampleRate b) = 8000"
    "startTime 0 1 < endTime 0 1 (duration b)"
    unfolding dur fields by (simp_all add: window_eval)
  have w1: "startOffset 1 1 (sampleRate b) = 8000" "endOffset 1 1 (duration b) (sampleRate b) = 8000"
    unfolding dur fields by (simp_all add: window_eval)
  have nd0: "\<not> degenerate b 1 0" using w0 by (simp add: degenerate_def)
  have d1: "degenerate b 1 1" using w1 by (simp add: degenerate_def)
  have hyp: "endTime 1 1 (duration b) \<le> startTime 1 1
         \<or> endOffset 1 1 (duration b) (sampleRate b) - startOffset 1 1 (sampleRate b) \<le> 0"
    using w1 by simp
  have pos: "0 < numberOfChannels b" "0 < sampleRate b"
    by (simp_all add: fields)
  have up: "[0..<nat 2] = [0, 1::nat]" by (simp add: eval_nat_numeral)
  have msgs: "map (\<lambda>j. progressMessage (j + 1) (Fin (of_int 2))) [0, 1]
                = [''Procesando trozo 1 de 2...'', ''Procesando trozo 2 de 2...'']"
    by (simp add: progressMessage_def numberToString.simps)
  have nm: "chunkName (fileName f) (0 + 1) = ''a_parte_01.wav''"
    by (simp add: f_def chunkName_one_digit name_eval)
  have c: "chunkAt f b 1 0 = \<lparr>name = ''a_parte_01.wav'',
               blob = audioBufferToWav \<lparr>numberOfChannels = 1, sampleRate = 8000, bufLength = 8000,
                        channelData = [replicate 8000 (Fin 0)]\<rparr>\<rparr>"
    using chunkAt_wellFormed [OF wf, of 0 1 f] unfolding nm w0
    by (simp add: fields)
  have "processAndSplitAudio f b 1
          = Some (''Decodificando el archivo...''
                    # map (\<lambda>j. progressMessage (j + 1) (totalChunks (duration b) 1)) [0..<nat 2],
                  Inr (map (chunkAt f b 1) (filter (\<lambda>j. \<not> degenerate b 1 j) [0..<nat 2])))"
    using degenerate_window_skipped [OF pos n _ _ hyp, of f "[]" "[]"] by simp
  then have "processAndSplitAudio f b 1
          = Some (''Decodificando el archivo...''
                    # map (\<lambda>j. progressMessage (j + 1) (Fin (of_int 2))) [0, 1],
                  Inr [chunkAt f b 1 0])"
    unfolding up n using nd0 d1 by simp
  then have r: "processAndSplitAudio f b 1
       = Some ([''Decodificando el archivo...'', ''Procesando trozo 1 de 2...'',
                ''Procesando trozo 2 de 2...''],
               Inr [\<lparr>name = ''a_parte_01.wav'',
                     blob = audioBufferToWav \<lparr>numberOfChannels = 1, sampleRate = 8000, bufLength = 8000,
                              channelData = [replicate 8000 (Fin 0)]\<rparr>\<rparr>])"
    by (simp only: msgs c append_Cons append_Nil)
  have h: "endOffset 1 1 (duration b) 8000 - startOffset 1 1 8000 \<le> 0"
    using w1 by (simp add: fields)
  from h r show ?thesis
    unfolding b_def f_def by (intro conjI)
qed

text \<open>
  The claim as stated fails wherever a window is degenerate, since the message is
  reported before the guards: with 1920001 frames at 48000 Hz and chunks of 10 seconds,
  the fifth window has no frame and the log of the run, which returns, holds its
  message.
\<close>

theorem skipped_window_reported:
  "endOffset 4 10 (duration \<lparr>numberOfChannels = 1, sampleRate = 48000, bufLength = 1920001,
                               channelData = [replicate 1920001 (Fin 0)]\<rparr>) 48000
     - startOffset 4 10 48000 \<le> 0
   \<and> processAndSplitAudio (File [] ''audio/mpeg'' ''a.mp3'')
         \<lparr>numberOfChannels = 1, sampleRate = 48000, bufLength = 1920001,
          channelData = [replicate 1920001 (Fin 0)]\<rparr> 10 \<noteq> None
   \<and> ''Procesando trozo 5 de 5...''
       \<in> set (fst (the (processAndSplitAudio (File [] ''audio/mpeg'' ''a.mp3'')
                 \<lparr>numberOfChannels = 1, sampleRate = 48000, bufLength = 1920001,
                  channelData = [replicate 1920001 (Fin 0)]\<rparr> 10)))"
proof -
  define b where "b = \<lparr>numberOfChannels = 1, sampleRate = 48000, bufLength = 1920001,
             channelData = [replicate 1920001 (Fin 0)]\<rparr>"
  define f where "f = File [] ''audio/mpeg'' ''a.mp3''"
  have fields: "numberOfChannels b = 1" "sampleRate b = 48000" "bufLength b = 1920001"
    by (simp_all add: b_def)
  have dur: "duration b = fl (1920001 / 48000)"
    by (simp add: duration_def fields)
  have n: "totalChunks (duration b) 10 = Fin (of_int 5)"
    unfolding dur by (simp add: window_eval)
  have w: "endOffset 4 10 (duration b) 48000 - startOffset 4 10 48000 \<le> 0"
    unfolding dur by (simp add: window_eval)
  have m: "progressMessage (4 + 1) (Fin (of_int 5)) = ''Procesando trozo 5 de 5...''"
    by (simp add: progressMessage_def numberToString.simps)
  have pos: "0 < numberOfChannels b" "0 < sampleRate b"
    by (simp_all add: fields)
  have run: "processAndSplitAudio f b 10
          = Some (''Decodificando el archivo...''
                    # map (\<lambda>j. progressMessage (j + 1) (Fin (of_int 5))) [0..<nat 5],
                  Inr (map (chunkAt f b 10) (filter (\<lambda>j. \<not> degenerate b 10 j) [0..<nat 5])))"
    using pos n by (rule processAndSplitAudio_run) simp
  have "(4::nat) \<in> set [0..<nat 5]" by simp
  then have "progressMessage (4 + 1) (Fin (of_int 5))
               \<in> (\<lambda>j. progressMessage (j + 1) (Fin (of_int 5))) ` set [0..<nat 5]"
    by (rule imageI)
  then have "progressMessage (4 + 1) (Fin (of_int 5)) \<in> set (fst (the (processAndSplitAudio f b 10)))"
    by (simp add: run)
  then have "''Procesando trozo 5 de 5...'' \<in> set (fst (the (processAndSplitAudio f b 10)))"
    unfolding m .
  moreover have "processAndSplitAudio f b 10 \<noteq> None"
    by (simp add: run)
  ultimately show ?thesis
    using w unfolding b_def f_def by (intro conjI)
qed



subsection \<open>Chunk names\<close>

text \<open>\<open>decimalValue\<close> reads a string of digits as the number it denotes.\<close>

definition decimalValue :: "string \<Rightarrow> nat" where
  "decimalValue str = foldl (\<lambda>acc c. 10 * acc + (of_char c - 48)) 0 str"

lemma digit_cases:
  "n < 10 \<Longrightarrow> n \<in> {0, 1, 2, 3, 4, 5, 6, 7, 8, 9::nat}"
  by auto

lemma digit_code: "n < 10 \<Longrightarrow> of_char (''0123456789'' ! n) = 48 + n"
  using digit_cases [of n] by auto

lemma digit_in_digits: "n < 10 \<Longrightarrow> ''0123456789'' ! n \<in> set ''0123456789''"
  using digit_cases [of n] by auto

lemma decimalValue_snoc:
  "decimalValue (str @ [c]) = 10 * decimalValue str + (of_char c - 48)"
  by (simp add: decimalValue_def)

lemma decimalValue_numberToString: "decimalValue (numberToString n) = n"
proof (induction n rule: numberToString.induct)
  case (1 n)
  show ?case
  proof (cases "n < 10")
    case True
    then show ?thesis
      by (simp add: numberToString.simps [of n] decimalValue_def digit_code)
  next
    case False
    then have "decimalValue (numberToString (n div 10)) = n div 10" by (rule "1.IH")
    then show ?thesis
      using False by (simp add: numberToString.simps [of n] decimalValue_snoc digit_code)
  qed
qed

lemma numberToString_digits: "set (numberToString n) \<subseteq> set ''0123456789''"
proof (induction n rule: numberToString.induct)
  case (1 n)
  show ?case
  proof (cases "n < 10")
    case True
    then show ?thesis
      using digit_in_digits [of n] by (simp add: numberToString.simps [of n])
  next
    case False
    then have "set (numberToString (n div 10)) \<subseteq> set ''0123456789''" by (rule "1.IH")
    moreover have "''0123456789'' ! (n mod 10) \<in> set ''0123456789''"
      by (rule digit_in_digits) simp
    ultimately show ?thesis
      using False by (simp add: numberToString.simps [of n])
  qed
qed

lemma length_numberToString:
  "(n < 10 \<longrightarrow> length (numberToString n) = 1)
   \<and> (10 \<le> n \<and> n < 100 \<longrightarrow> length (numberToString n) = 2)
   \<and> (100 \<le> n \<longrightarrow> 3 \<le> length (numberToString n))"
proof (induction n rule: numberToString.induct)
  case (1 n)
  show ?case
  proof (cases "n < 10")
    case True
    then show ?thesis by (simp add: numberToString.simps [of n])
  next
    case False
    note ih = "1.IH" [OF False]
    have len: "length (numberToString n) = Suc (length (numberToString (n div 10)))"
      using False by (simp add: numberToString.simps [of n])
    show ?thesis
    proof (cases "n < 100")
      case True
      then have "n div 10 < 10" by simp
      with ih have "length (numberToString (n div 10)) = 1" by simp
      with len False True show ?thesis by simp
    next
      case False
      then have "10 \<le> n div 10" by simp
      with ih have "2 \<le> length (numberToString (n div 10))"
        by (cases "n div 10 < 100") simp_all
      with len False show ?thesis by simp
    qed
  qed
qed

lemma padStart_numberToString:
  "(n < 10 \<longrightarrow> padStart (numberToString n) 2 ''0'' = CHR ''0'' # numberToString n)
   \<and> (10 \<le> n \<longrightarrow> padStart (numberToString n) 2 ''0'' = numberToString n)"
proof (cases "n < 10")
  case True
  then have "length (numberToString n) = 1" using length_numberToString [of n] by simp
  with True show ?thesis by (simp add: padStart_def)
next
  case False
  then have "2 \<le> length (numberToString n)"
    using length_numberToString [of n] by (cases "n < 100") simp_all
  with False show ?thesis by (simp add: padStart_def)
qed

lemma lastIndexOf_split:
  assumes "c \<notin> set ext"
  shows "lastIndexOf (stem @ c # ext) c = int (length stem)"
proof -
  have "takeWhile (\<lambda>x. x \<noteq> c) (rev ext @ c # rev stem) = rev ext"
    using assms by (subst takeWhile_append2) auto
  then have "takeWhile (\<lambda>x. x \<noteq> c) (rev (stem @ c # ext)) = rev ext"
    by simp
  then show ?thesis
    unfolding lastIndexOf_def by (simp del: rev_append rev.simps)
qed

lemma originalFileName_stem:
  assumes "CHR ''.'' \<notin> set ext" "stem \<noteq> []"
  shows "originalFileName (stem @ ''.'' @ ext) = stem"
  using assms lastIndexOf_split [of "CHR ''.''" ext stem]
  by (simp add: originalFileName_def substring_def Let_def)

lemma originalFileName_no_dot:
  assumes "CHR ''.'' \<notin> set fname"
  shows "originalFileName fname = fname"
  using assms by (simp add: originalFileName_def substring_def lastIndexOf_def Let_def)

lemma originalFileName_leading_dot:
  assumes "CHR ''.'' \<notin> set ext"
  shows "originalFileName (''.'' @ ext) = ''.'' @ ext"
  using assms lastIndexOf_split [of "CHR ''.''" ext "[]"]
  by (simp add: originalFileName_def substring_def Let_def)

text \<open>
  Claim C7, as amended. For every decoded buffer and every chunk duration whose chunk
  count is a finite \<open>m\<close> that the loop counter can reach (at most \<open>2^53\<close>), the run
  returns, and every emitted chunk is named \<open><base>_parte_<NN>.wav\<close>, one name per
  window that is not degenerate, in order, where \<open><base>\<close> is the file name up to its
  last dot (the whole name when it has no dot, or no other dot than a leading one) and
  \<open><NN>\<close> is the 1-based index of the window in decimal digits, padded with a zero to
  two digits below 10, two digits up to 99, and all its three or more digits from 100
  on.
\<close>

theorem chunk_names:
  assumes "0 < numberOfChannels b" "0 < sampleRate b"
    and "totalChunks (duration b) d = Fin (of_int m)" "m \<le> 2 ^ 53"
  shows "(\<exists>log cs. processAndSplitAudio file b d = Some (log, Inr cs)
            \<and> map name cs
                = map (\<lambda>i. originalFileName (fileName file) @ ''_parte_''
                             @ padStart (numberToString (i + 1)) 2 ''0'' @ ''.wav'')
                    (filter (\<lambda>i. \<not> degenerate b d i) [0..<nat m]))
    \<and> (CHR ''.'' \<notin> set ext \<and> stem \<noteq> [] \<longrightarrow> originalFileName (stem @ ''.'' @ ext) = stem)
    \<and> (CHR ''.'' \<notin> set fname \<longrightarrow> originalFileName fname = fname)
    \<and> (CHR ''.'' \<notin> set ext \<longrightarrow> originalFileName (''.'' @ ext) = ''.'' @ ext)
    \<and> decimalValue (numberToString n) = n
    \<and> set (numberToString n) \<subseteq> set ''0123456789''
    \<and> (n < 10 \<longrightarrow> padStart (numberToString n) 2 ''0'' = CHR ''0'' # numberToString n
                  \<and> length (numberToString n) = 1)
    \<and> (10 \<le> n \<and> n < 100 \<longrightarrow> padStart (numberToString n) 2 ''0'' = numberToString n
                  \<and> length (numberToString n) = 2)
    \<and> (100 \<le> n \<longrightarrow> padStart (numberToString n) 2 ''0'' = numberToString n
                  \<and> 3 \<le> length (numberToString n))"
proof -
  have names: "\<exists>log cs. processAndSplitAudio file b d = Some (log, Inr cs)
            \<and> map name cs
                = map (\<lambda>i. originalFileName (fileName file) @ ''_parte_''
                             @ padStart (numberToString (i + 1)) 2 ''0'' @ ''.wav'')
                    (filter (\<lambda>i. \<not> degenerate b d i) [0..<nat m])"
    by (simp add: processAndSplitAudio_run [OF assms] chunkAt_def chunkName_def Let_def comp_def)
  have base: "(CHR ''.'' \<notin> set ext \<and> stem \<noteq> [] \<longrightarrow> originalFileName (stem @ ''.'' @ ext) = stem)
    \<and> (CHR ''.'' \<notin> set fname \<longrightarrow> originalFileName fname = fname)
    \<and> (CHR ''.'' \<notin> set ext \<longrightarrow> originalFileName (''.'' @ ext) = ''.'' @ ext)"
    using originalFileName_stem [of ext stem] originalFileName_no_dot [of fname]
      originalFileName_leading_dot [of ext] by blast
  have num: "decimalValue (numberToString n) = n \<and> set (numberToString n) \<subseteq> set ''0123456789''"
    using decimalValue_numberToString [of n] numberToString_digits [of n] by (rule conjI)
  have pad: "(n < 10 \<longrightarrow> padStart (numberToString n) 2 ''0'' = CHR ''0'' # numberToString n
                  \<and> length (numberToString n) = 1)
    \<and> (10 \<le> n \<and> n < 100 \<longrightarrow> padStart (numberToString n) 2 ''0'' = numberToString n
                  \<and> length (numberToString n) = 2)
    \<and> (100 \<le> n \<longrightarrow> padStart (numberToString n) 2 ''0'' = numberToString n
                  \<and> 3 \<le> length (numberToString n))"
    using padStart_numberToString [of n] length_numberToString [of n] by auto
  from names base num pad show ?thesis by blast
qed

text \<open>The theorem at ten seconds of an input named \<open>grabacion.final.mp3\<close>.\<close>

theorem chunk_names_witness:
  "\<exists>log cs. processAndSplitAudio (File [] ''audio/mpeg'' ''grabacion.final.mp3'')
            \<lparr>numberOfChannels = 1, sampleRate = 8000, bufLength = 80000,
             channelData = [replicate 80000 (Fin 0)]\<rparr> 3 = Some (log, Inr cs)
     \<and> map name cs = [''grabacion.final_parte_01.wav'', ''grabacion.final_parte_02.wav'',
                       ''grabacion.final_parte_03.wav'', ''grabacion.final_parte_04.wav'']"
proof -
  define b where "b = \<lparr>numberOfChannels = 1, sampleRate = 8000, bufLength = 80000,
             channelData = [replicate 80000 (Fin 0)]\<rparr>"
  define f where "f = File [] ''audio/mpeg'' ''grabacion.final.mp3''"
  have fields: "numberOfChannels b = 1" "sampleRate b = 8000" "bufLength b = 80000"
    by (simp_all add: b_def)
  have base: "originalFileName (fileName f) = ''grabacion.final''"
    by (simp add: f_def name_eval)
  have nn: "padStart (numberToString (0 + 1)) 2 ''0'' = ''01''"
    "padStart (numberToString (1 + 1)) 2 ''0'' = ''02''"
    "padStart (numberToString (2 + 1)) 2 ''0'' = ''03''"
    "padStart (numberToString (3 + 1)) 2 ''0'' = ''04''"
    by (simp_all add: padStart_def numberToString.simps)
  have pos: "0 < numberOfChannels b" "0 < sampleRate b"
    by (simp_all add: fields)
  have n: "totalChunks (duration b) 3 = Fin (of_int 4)"
    using ten_second_windows(1) [OF fields(2,3)] by simp
  have le: "(4::int) \<le> 2 ^ 53" by simp
  from chunk_names [OF pos n le, THEN conjunct1, of f]
  obtain log cs where cs: "processAndSplitAudio f b 3 = Some (log, Inr cs)
      \<and> map name cs = map (\<lambda>i. originalFileName (fileName f) @ ''_parte_''
                             @ padStart (numberToString (i + 1)) 2 ''0'' @ ''.wav'')
                    (filter (\<lambda>i. \<not> degenerate b 3 i) [0..<nat 4])"
    by blast
  have idx: "filter (\<lambda>i. \<not> degenerate b 3 i) [0..<nat 4] = [0, 1, 2, 3]"
    using ten_second_windows(2) [OF fields(2,3)] by simp
  have "map name cs = map (\<lambda>i. ''grabacion.final'' @ ''_parte_''
                             @ padStart (numberToString (i + 1)) 2 ''0'' @ ''.wav'') [0, 1, 2, 3]"
    using cs [THEN conjunct2] by (simp only: idx base)
  also have "\<dots> = [''grabacion.final_parte_01.wav'', ''grabacion.final_parte_02.wav'',
                       ''grabacion.final_parte_03.wav'', ''grabacion.final_parte_04.wav'']"
    using nn by simp
  finally have "map name cs = [''grabacion.final_parte_01.wav'', ''grabacion.final_parte_02.wav'',
                       ''grabacion.final_parte_03.wav'', ''grabacion.final_parte_04.wav'']" .
  with cs [THEN conjunct1] have "processAndSplitAudio f b 3 = Some (log, Inr cs)
     \<and> map name cs = [''grabacion.final_parte_01.wav'', ''grabacion.final_parte_02.wav'',
                       ''grabacion.final_parte_03.wav'', ''grabacion.final_parte_04.wav'']"
    by (rule conjI)
  then have "\<exists>cs. processAndSplitAudio f b 3 = Some (log, Inr cs)
     \<and> map name cs = [''grabacion.final_parte_01.wav'', ''grabacion.final_parte_02.wav'',
                       ''grabacion.final_parte_03.wav'', ''grabacion.final_parte_04.wav'']"
    by (rule exI [of _ cs])
  then show ?thesis unfolding b_def f_def by (rule exI [of _ log])
qed

text \<open>
  The claim as stated fails at the hundredth chunk: 1000 seconds at 8000 Hz in chunks
  of 10 seconds give 100 chunks, and the last is named with three digits.
\<close>

theorem hundredth_chunk_three_digits:
  "processAndSplitAudio (File [] ''audio/mpeg'' ''a.mp3'')
      \<lparr>numberOfChannels = 1, sampleRate = 8000, bufLength = 8000000,
       channelData = [replicate 8000000 (Fin 0)]\<rparr> 10 \<noteq> None
   \<and> name (projr (snd (the (processAndSplitAudio (File [] ''audio/mpeg'' ''a.mp3'')
            \<lparr>numberOfChannels = 1, sampleRate = 8000, bufLength = 8000000,
             channelData = [replicate 8000000 (Fin 0)]\<rparr> 10))) ! 99)
     = ''a_parte_100.wav''"
proof -
  define b where "b = \<lparr>numberOfChannels = 1, sampleRate = 8000, bufLength = 8000000,
             channelData = [replicate 8000000 (Fin 0)]\<rparr>"
  define f where "f = File [] ''audio/mpeg'' ''a.mp3''"
  have fields: "numberOfChannels b = 1" "sampleRate b = 8000" "bufLength b = 8000000"
    by (simp_all add: b_def)
  have pos: "0 < numberOfChannels b" "0 < sampleRate b"
    by (simp_all add: fields)
  have n: "totalChunks (duration b) 10 = Fin (of_int 100)"
    using hundred_windows(1) [OF fields(2,3)] by simp
  have "processAndSplitAudio f b 10
          = Some (''Decodificando el archivo...''
                    # map (\<lambda>j. progressMessage (j + 1) (Fin (of_int 100))) [0..<nat 100],
                  Inr (map (chunkAt f b 10) (filter (\<lambda>j. \<not> degenerate b 10 j) [0..<nat 100])))"
    using pos n by (rule processAndSplitAudio_run) simp
  then have run: "processAndSplitAudio f b 10
          = Some (''Decodificando el archivo...''
                    # map (\<lambda>j. progressMessage (j + 1) (Fin (of_int 100))) [0..<100],
                  Inr (map (chunkAt f b 10) [0..<100]))"
    by (simp add: hundred_windows(2) [OF fields(2,3)])
  then have "name (projr (snd (the (processAndSplitAudio f b 10))) ! 99) = name (chunkAt f b 10 99)"
    by simp
  also have "\<dots> = chunkName ''a.mp3'' 100"
    by (simp add: chunkAt_def Let_def f_def)
  also have "\<dots> = ''a_parte_100.wav''"
    by (simp add: chunkName_def padStart_def numberToString.simps name_eval)
  finally have "name (projr (snd (the (processAndSplitAudio f b 10))) ! 99) = ''a_parte_100.wav''" .
  moreover have "processAndSplitAudio f b 10 \<noteq> None"
    by (simp add: run)
  ultimately show ?thesis unfolding b_def f_def by (intro conjI)
qed

end
